theory Spec2Isabelle
  imports Main
begin

section \<open>Strings of the runtime\<close>

text \<open>
  A JavaScript string is a sequence of code units. The model uses \<^typ>\<open>string\<close>, whose
  characters are the code units U+0000 to U+00FF (Basic Latin and Latin-1 Supplement), and
  gives the library operations the sources call their meaning on that range.
\<close>

definition codeUnit :: "char \<Rightarrow> nat" where
  "codeUnit c = of_char c"

text \<open>The class \<open>\s\<close> of a regular expression, which is also what \<open>trim()\<close> strips: TAB, LF,
  VT, FF, CR, SPACE and NO-BREAK SPACE are the white space and line terminators below U+0100.\<close>

definition isWhiteSpace :: "char \<Rightarrow> bool" where
  "isWhiteSpace c = (codeUnit c = 9 \<or> codeUnit c = 10 \<or> codeUnit c = 11 \<or> codeUnit c = 12 \<or> codeUnit c = 13
     \<or> codeUnit c = 32 \<or> codeUnit c = 160)"

text \<open>The class \<open>\d\<close> and the range \<open>a-z\<close>.\<close>

definition isDigit :: "char \<Rightarrow> bool" where
  "isDigit c = (48 \<le> codeUnit c \<and> codeUnit c \<le> 57)"

definition isLowerAZ :: "char \<Rightarrow> bool" where
  "isLowerAZ c = (97 \<le> codeUnit c \<and> codeUnit c \<le> 122)"

definition isHyphen :: "char \<Rightarrow> bool" where
  "isHyphen c = (c = CHR ''-'')"

text \<open>\<open>toLowerCase()\<close>: the letters A to Z, and the Latin-1 capitals U+00C0 to U+00DE but
  the multiplication sign U+00D7, move up by 32; every other code unit of the range stays.\<close>

definition toLowerChar :: "char \<Rightarrow> char" where
  "toLowerChar c =
     (if (65 \<le> codeUnit c \<and> codeUnit c \<le> 90) \<or> (192 \<le> codeUnit c \<and> codeUnit c \<le> 214) \<or> (216 \<le> codeUnit c \<and> codeUnit c \<le> 222)
      then char_of (codeUnit c + 32) else c)"

definition toLowerCase :: "string \<Rightarrow> string" where
  "toLowerCase s = map toLowerChar s"

definition trimStart :: "string \<Rightarrow> string" where
  "trimStart s = dropWhile isWhiteSpace s"

definition trimEnd :: "string \<Rightarrow> string" where
  "trimEnd s = rev (dropWhile isWhiteSpace (rev s))"

definition trim :: "string \<Rightarrow> string" where
  "trim s = trimEnd (trimStart s)"

text \<open>\<open>s.replace(/[C]+/g, r)\<close> for a character class \<open>C\<close>: every maximal run of characters of
  the class is replaced by \<open>r\<close>; the scan goes on after the run.\<close>

function replaceRuns :: "(char \<Rightarrow> bool) \<Rightarrow> string \<Rightarrow> string \<Rightarrow> string" where
  "replaceRuns C r [] = []"
| "replaceRuns C r (c # cs) =
     (if C c then r @ replaceRuns C r (dropWhile C cs) else c # replaceRuns C r cs)"
  by pat_completeness auto
termination
  by (relation "measure (\<lambda>(C, r, s). length s)") (auto simp: le_imp_less_Suc length_dropWhile_le)

text \<open>\<open>s.replace(/[C]/g, "")\<close>: every character of the class is removed.\<close>

definition removeChars :: "(char \<Rightarrow> bool) \<Rightarrow> string \<Rightarrow> string" where
  "removeChars C s = filter (\<lambda>c. \<not> C c) s"


subsection \<open>Numbers and their decimal text\<close>

text \<open>\<open>Number(s)\<close> on a string of decimal digits, and \<open>n.toString()\<close> on an integer.\<close>

definition digitValue :: "char \<Rightarrow> int" where
  "digitValue c = int (codeUnit c) - 48"

definition Number :: "string \<Rightarrow> int" where
  "Number ds = foldl (\<lambda>n c. 10 * n + digitValue c) 0 ds"

definition digitChar :: "nat \<Rightarrow> char" where
  "digitChar d = char_of (48 + d)"

function digitsOf :: "int \<Rightarrow> string" where
  "digitsOf n = (if n < 10 then [digitChar (nat n)] else digitsOf (n div 10) @ [digitChar (nat (n mod 10))])"
  by pat_completeness auto
termination
  by (relation "measure nat") auto

definition toString :: "int \<Rightarrow> string" where
  "toString i = (if i < 0 then CHR ''-'' # digitsOf (- i) else digitsOf i)"

text \<open>\<open>s.padStart(n, pad)\<close>: the pad string is repeated and cut to the missing length.\<close>

definition padStart :: "nat \<Rightarrow> string \<Rightarrow> string \<Rightarrow> string" where
  "padStart n pad s =
     (if n \<le> length s \<or> pad = [] then s
      else take (n - length s) (concat (replicate (n - length s) pad)) @ s)"

subsection \<open>Regular expressions\<close>

text \<open>
  The regular expressions of the sources are anchored at both ends (\<open>^ ... $\<close>, no flags), so
  \<open>test\<close> and \<open>match\<close> succeed exactly when the whole string is in the expression's
  language. \<open>regexTest\<close> decides that by derivatives; \<open>language\<close> is the meaning it is
  checked against.
\<close>

datatype regex =
    NoMatch
  | EmptyStr
  | Class "char \<Rightarrow> bool"
  | Concat regex regex
  | Choice regex regex
  | Repeat regex

definition OneOrMore :: "regex \<Rightarrow> regex" where
  "OneOrMore r = Concat r (Repeat r)"

definition Optional :: "regex \<Rightarrow> regex" where
  "Optional r = Choice r EmptyStr"

fun matchesEmpty :: "regex \<Rightarrow> bool" where
  "matchesEmpty NoMatch = False"
| "matchesEmpty EmptyStr = True"
| "matchesEmpty (Class C) = False"
| "matchesEmpty (Concat r s) = (matchesEmpty r \<and> matchesEmpty s)"
| "matchesEmpty (Choice r s) = (matchesEmpty r \<or> matchesEmpty s)"
| "matchesEmpty (Repeat r) = True"

fun after :: "char \<Rightarrow> regex \<Rightarrow> regex" where
  "after c NoMatch = NoMatch"
| "after c EmptyStr = NoMatch"
| "after c (Class C) = (if C c then EmptyStr else NoMatch)"
| "after c (Concat r s) =
     (if matchesEmpty r then Choice (Concat (after c r) s) (after c s) else Concat (after c r) s)"
| "after c (Choice r s) = Choice (after c r) (after c s)"
| "after c (Repeat r) = Concat (after c r) (Repeat r)"

fun regexTest :: "regex \<Rightarrow> string \<Rightarrow> bool" where
  "regexTest r [] = matchesEmpty r"
| "regexTest r (c # cs) = regexTest (after c r) cs"

inductive_set many :: "string set \<Rightarrow> string set" for A :: "string set" where
  none: "[] \<in> many A"
| more: "u \<in> A \<Longrightarrow> v \<in> many A \<Longrightarrow> u @ v \<in> many A"

fun language :: "regex \<Rightarrow> string set" where
  "language NoMatch = {}"
| "language EmptyStr = {[]}"
| "language (Class C) = {[c] | c. C c}"
| "language (Concat r s) = {u @ v | u v. u \<in> language r \<and> v \<in> language s}"
| "language (Choice r s) = language r \<union> language s"
| "language (Repeat r) = many (language r)"

section \<open>Errors\<close>

text \<open>
  What a write can be rejected with: a JavaScript \<open>Error\<close> thrown by a hook, with its message;
  the validation error of the object-document mapper, which lists the paths whose validators
  failed; the store's duplicate-key error for a unique index, with the indexed path.
\<close>

datatype error =
    Error string
  | ValidationError "string list"
  | DuplicateKeyError string

section \<open>Event model\<close>

text \<open>\<open>nonEmptyString\<close>: \<open>value.trim().length > 0\<close>.\<close>

definition nonEmptyString :: "string \<Rightarrow> bool" where
  "nonEmptyString v = (length (trim v) > 0)"

subsection \<open>slugify\<close>

text \<open>The class \<open>[^a-z0-9\s-]\<close>.\<close>

definition notSlugSource :: "char \<Rightarrow> bool" where
  "notSlugSource c = (\<not> (isLowerAZ c \<or> isDigit c \<or> isWhiteSpace c \<or> isHyphen c))"

definition slugify :: "string \<Rightarrow> string" where
  "slugify v =
     replaceRuns isHyphen ''-''
       (replaceRuns isWhiteSpace ''-''
         (removeChars notSlugSource
           (trim (toLowerCase v))))"

subsection \<open>normalizeTime\<close>

text \<open>The pattern \<open>/^(\d{1,2}):(\d{2})(?::(\d{2}))?$/\<close> as an expression of the matcher.\<close>

definition isColon :: "char \<Rightarrow> bool" where
  "isColon c = (c = CHR '':'')"

definition timeRegex :: regex where
  "timeRegex =
     Concat (Concat (Class isDigit) (Optional (Class isDigit)))
       (Concat (Class isColon)
         (Concat (Concat (Class isDigit) (Class isDigit))
           (Optional (Concat (Class isColon) (Concat (Class isDigit) (Class isDigit))))))"

text \<open>\<open>trimmed.match(...)\<close>: the three groups of a match, the third absent without seconds.
  One or two digits, a colon and two digits, then nothing or a colon and two digits: the
  four shapes below are every string the pattern matches.\<close>

fun matchTime :: "string \<Rightarrow> (string \<times> string \<times> string option) option" where
  "matchTime [h1, c1, m1, m2] =
     (if isDigit h1 \<and> isColon c1 \<and> isDigit m1 \<and> isDigit m2
      then Some ([h1], [m1, m2], None) else None)"
| "matchTime [h1, h2, c1, m1, m2] =
     (if isDigit h1 \<and> isDigit h2 \<and> isColon c1 \<and> isDigit m1 \<and> isDigit m2
      then Some ([h1, h2], [m1, m2], None) else None)"
| "matchTime [h1, c1, m1, m2, c2, s1, s2] =
     (if isDigit h1 \<and> isColon c1 \<and> isDigit m1 \<and> isDigit m2 \<and> isColon c2 \<and> isDigit s1 \<and> isDigit s2
      then Some ([h1], [m1, m2], Some [s1, s2]) else None)"
| "matchTime [h1, h2, c1, m1, m2, c2, s1, s2] =
     (if isDigit h1 \<and> isDigit h2 \<and> isColon c1 \<and> isDigit m1 \<and> isDigit m2 \<and> isColon c2
         \<and> isDigit s1 \<and> isDigit s2
      then Some ([h1, h2], [m1, m2], Some [s1, s2]) else None)"
| "matchTime _ = None"

definition normalizeTime :: "string \<Rightarrow> error + string" where
  "normalizeTime v =
     (let trimmed = trim v in
      case matchTime trimmed of
        None \<Rightarrow> Inl (Error ''Invalid event time. Expected format HH:MM or HH:MM:SS (24-hour).'')
      | Some (g1, g2, g3) \<Rightarrow>
          (let hours = Number g1; minutes = Number g2 in
           if hours < 0 \<or> hours > 23 \<or> minutes < 0 \<or> minutes > 59
           then Inl (Error ''Invalid event time. Hour must be 0-23 and minutes 0-59.'')
           else Inr (padStart 2 ''0'' (toString hours) @ '':'' @ padStart 2 ''0'' (toString minutes))))"

subsection \<open>normalizeDate\<close>

text \<open>
  \<open>new Date(value)\<close> and \<open>toISOString()\<close> belong to the runtime. A \<open>Date\<close> is its time value,
  the milliseconds since the epoch in UTC; the parser is a parameter of the model (\<open>None\<close> is an
  invalid date, whose \<open>getTime()\<close> is NaN), since the standard leaves to the engine which strings
  it accepts beyond its own format. \<open>toISOString\<close> is fixed by the standard: the functions below
  are its day and year arithmetic.
\<close>

definition msPerDay :: int where
  "msPerDay = 86400000"

definition Day :: "int \<Rightarrow> int" where
  "Day t = t div msPerDay"

definition TimeWithinDay :: "int \<Rightarrow> int" where
  "TimeWithinDay t = t mod msPerDay"

definition DaysInYear :: "int \<Rightarrow> int" where
  "DaysInYear y =
     (if y mod 4 \<noteq> 0 then 365 else if y mod 100 \<noteq> 0 then 366 else if y mod 400 \<noteq> 0 then 365 else 366)"

definition DayFromYear :: "int \<Rightarrow> int" where
  "DayFromYear y = 365 * (y - 1970) + (y - 1969) div 4 - (y - 1901) div 100 + (y - 1601) div 400"

text \<open>The year of a day is the largest \<open>y\<close> with \<open>DayFromYear y \<le> d\<close>; it is the year of the
  mean-length estimate, or a neighbour of it.\<close>

definition YearFromDay :: "int \<Rightarrow> int" where
  "YearFromDay d =
     (let c = 1970 + (d * 400) div 146097 in
      if DayFromYear (c + 1) \<le> d then c + 1 else if DayFromYear c \<le> d then c else c - 1)"

definition InLeapYear :: "int \<Rightarrow> int" where
  "InLeapYear y = (if DaysInYear y = 366 then 1 else 0)"

text \<open>The day within the year on which each month starts.\<close>

definition monthStarts :: "int \<Rightarrow> int list" where
  "monthStarts l =
     [0, 31, 59 + l, 90 + l, 120 + l, 151 + l, 181 + l, 212 + l, 243 + l, 273 + l, 304 + l, 334 + l]"

definition MonthFromDay :: "int \<Rightarrow> nat" where
  "MonthFromDay d =
     (let y = YearFromDay d in
      length (filter (\<lambda>s. s \<le> d - DayFromYear y) (monthStarts (InLeapYear y))) - 1)"

definition DateFromDay :: "int \<Rightarrow> int" where
  "DateFromDay d =
     (let y = YearFromDay d in
      d - DayFromYear y - monthStarts (InLeapYear y) ! MonthFromDay d + 1)"

definition yearText :: "int \<Rightarrow> string" where
  "yearText y =
     (if 0 \<le> y \<and> y \<le> 9999 then padStart 4 ''0'' (toString y)
      else (if y < 0 then ''-'' else ''+'') @ padStart 6 ''0'' (toString (abs y)))"

definition toISOString :: "int \<Rightarrow> string" where
  "toISOString t =
     (let d = Day t; w = TimeWithinDay t in
      yearText (YearFromDay d) @ ''-'' @ padStart 2 ''0'' (toString (int (MonthFromDay d) + 1)) @ ''-''
        @ padStart 2 ''0'' (toString (DateFromDay d)) @ ''T''
        @ padStart 2 ''0'' (toString (w div 3600000)) @ '':''
        @ padStart 2 ''0'' (toString ((w div 60000) mod 60)) @ '':''
        @ padStart 2 ''0'' (toString ((w div 1000) mod 60)) @ ''.''
        @ padStart 3 ''0'' (toString (w mod 1000)) @ ''Z'')"

text \<open>\<open>slice(0, 10)\<close> keeps the first ten code units.\<close>

definition normalizeDate :: "(string \<Rightarrow> int option) \<Rightarrow> string \<Rightarrow> error + string" where
  "normalizeDate parse v =
     (case parse v of
        None \<Rightarrow> Inl (Error ''Invalid event date. Please provide a valid date value.'')
      | Some t \<Rightarrow> Inr (take 10 (toISOString t)))"

text \<open>
  Modelled from the ECMAScript standard: the date parser is the runtime's and is not in the
  repository. \<open>isoDateParse\<close> reads the date-only forms of the standard's date-time string
  format, which every engine reads as UTC: a year of four digits, or of six digits with a sign
  (but not \<open>-000000\<close>), then optionally \<open>-MM\<close>, then optionally \<open>-DD\<close> with a day of that month.
  It stands for the engine's parser wherever a statement needs a concrete one; every other
  string is outside it.
\<close>

definition isoYear :: "string \<Rightarrow> (int \<times> string) option" where
  "isoYear s =
     (case s of
        [] \<Rightarrow> None
      | c # cs \<Rightarrow>
          if c = CHR ''+'' \<or> c = CHR ''-'' then
            (if length cs \<ge> 6 \<and> list_all isDigit (take 6 cs) \<and> \<not> (c = CHR ''-'' \<and> Number (take 6 cs) = 0)
             then Some ((if c = CHR ''-'' then - Number (take 6 cs) else Number (take 6 cs)), drop 6 cs)
             else None)
          else
            (if length s \<ge> 4 \<and> list_all isDigit (take 4 s) then Some (Number (take 4 s), drop 4 s)
             else None))"

text \<open>One \<open>-NN\<close> field with \<open>lo \<le> NN \<le> hi\<close>, or nothing (then the field is 1).\<close>

definition isoField :: "int \<Rightarrow> int \<Rightarrow> string \<Rightarrow> (int \<times> string) option" where
  "isoField lo hi s =
     (case s of
        [] \<Rightarrow> Some (1, [])
      | c # cs \<Rightarrow>
          if c = CHR ''-'' \<and> length cs \<ge> 2 \<and> list_all isDigit (take 2 cs)
             \<and> lo \<le> Number (take 2 cs) \<and> Number (take 2 cs) \<le> hi
          then Some (Number (take 2 cs), drop 2 cs) else None)"

definition DaysInMonth :: "int \<Rightarrow> int \<Rightarrow> int" where
  "DaysInMonth y m =
     (if m = 2 then 28 + InLeapYear y else if m = 4 \<or> m = 6 \<or> m = 9 \<or> m = 11 then 30 else 31)"

definition MakeDay :: "int \<Rightarrow> int \<Rightarrow> int \<Rightarrow> int" where
  "MakeDay y m dt = DayFromYear y + monthStarts (InLeapYear y) ! nat (m - 1) + dt - 1"

text \<open>\<open>TimeClip\<close>: a time value is at most 8.64e15 milliseconds from the epoch.\<close>

definition TimeClip :: "int \<Rightarrow> int option" where
  "TimeClip t = (if abs t \<le> 8640000000000000 then Some t else None)"

definition isoDateParse :: "string \<Rightarrow> int option" where
  "isoDateParse s =
     (case isoYear s of
        None \<Rightarrow> None
      | Some (y, r1) \<Rightarrow>
          (case isoField 1 12 r1 of
             None \<Rightarrow> None
           | Some (m, r2) \<Rightarrow>
               (case isoField 1 (DaysInMonth y m) r2 of
                  None \<Rightarrow> None
                | Some (dt, r3) \<Rightarrow>
                    if r3 = [] then TimeClip (MakeDay y m dt * msPerDay) else None)))"

subsection \<open>The Event document and its schema\<close>

text \<open>The attributes of an Event. \<open>slug\<close> is optional in the schema: \<open>None\<close> is a document
  without one. The field \<open>image_path\<close> is the path \<open>image\<close> of the schema.\<close>

record EventDoc =
  title :: string
  slug :: "string option"
  description :: string
  overview :: string
  image_path :: string
  venue :: string
  location :: string
  date :: string
  time :: string
  mode :: string
  audience :: string
  agenda :: "string list"
  organizer :: string
  tags :: "string list"

text \<open>The schema's setters: \<open>trim: true\<close> trims a path whenever it is assigned. \<open>agenda\<close> and
  \<open>tags\<close> have none.\<close>

definition applySetters :: "EventDoc \<Rightarrow> EventDoc" where
  "applySetters e =
     e\<lparr> title := trim (title e), slug := map_option trim (slug e),
        description := trim (description e), overview := trim (overview e),
        image_path := trim (image_path e), venue := trim (venue e), location := trim (location e),
        date := trim (date e), time := trim (time e), mode := trim (mode e),
        audience := trim (audience e), organizer := trim (organizer e) \<rparr>"

text \<open>The validators of the schema, path by path in its order: a required string path passes
  \<open>nonEmptyString\<close>; \<open>agenda\<close> and \<open>tags\<close> pass the array validator. The result lists the
  paths that fail.\<close>

definition stringPath :: "string \<Rightarrow> string \<Rightarrow> string list" where
  "stringPath path v = (if nonEmptyString v then [] else [path])"

definition arrayValidator :: "string list \<Rightarrow> bool" where
  "arrayValidator v = (length v > 0 \<and> list_all nonEmptyString v)"

definition arrayPath :: "string \<Rightarrow> string list \<Rightarrow> string list" where
  "arrayPath path v = (if arrayValidator v then [] else [path])"

definition validateEvent :: "EventDoc \<Rightarrow> string list" where
  "validateEvent e =
     stringPath ''title'' (title e) @ stringPath ''description'' (description e)
       @ stringPath ''overview'' (overview e) @ stringPath ''image'' (image_path e)
       @ stringPath ''venue'' (venue e) @ stringPath ''location'' (location e)
       @ stringPath ''date'' (date e) @ stringPath ''time'' (time e)
       @ stringPath ''mode'' (mode e) @ stringPath ''audience'' (audience e)
       @ arrayPath ''agenda'' (agenda e) @ stringPath ''organizer'' (organizer e)
       @ arrayPath ''tags'' (tags e)"

subsection \<open>The pre-save hook of Event\<close>

text \<open>\<open>!this.slug\<close>: a missing slug and the empty string are both falsy.\<close>

definition slugMissing :: "string option \<Rightarrow> bool" where
  "slugMissing s = (case s of None \<Rightarrow> True | Some x \<Rightarrow> x = [])"

text \<open>The hook: \<open>titleModified\<close> is \<open>this.isModified("title")\<close>. Each assignment goes through
  the path's setter. An error of \<open>normalizeDate\<close> or \<open>normalizeTime\<close> is thrown on.\<close>

definition eventPreSave :: "(string \<Rightarrow> int option) \<Rightarrow> bool \<Rightarrow> EventDoc \<Rightarrow> error + EventDoc" where
  "eventPreSave parse titleModified e =
     (let e1 = (if (titleModified \<or> slugMissing (slug e)) \<and> nonEmptyString (title e)
                then e\<lparr>slug := Some (trim (slugify (title e)))\<rparr> else e)
      in case normalizeDate parse (date e1) of
           Inl err \<Rightarrow> Inl err
         | Inr d \<Rightarrow>
             (case normalizeTime (time e1) of
                Inl err \<Rightarrow> Inl err
              | Inr t \<Rightarrow> Inr (e1\<lparr>date := trim d, time := trim t\<rparr>)))"

section \<open>The store\<close>

text \<open>The two collections. An Event is stored under its identifier; the collection of events
  has a unique index on \<open>slug\<close>.\<close>

record BookingDoc =
  eventId :: nat
  email :: string

record Store =
  events :: "(nat \<times> EventDoc) list"
  bookings :: "BookingDoc list"

definition emptyStore :: Store where
  "emptyStore = \<lparr>events = [], bookings = []\<rparr>"

text \<open>\<open>Event.exists({ _id: i })\<close>.\<close>

definition eventExists :: "Store \<Rightarrow> nat \<Rightarrow> bool" where
  "eventExists st i = (i \<in> set (map fst (events st)))"

text \<open>The unique index: another document already holds the slug.\<close>

definition slugTaken :: "Store \<Rightarrow> nat \<Rightarrow> string option \<Rightarrow> bool" where
  "slugTaken st i s = list_ex (\<lambda>(j, e). j \<noteq> i \<and> slug e = s) (events st)"

definition putEvent :: "Store \<Rightarrow> nat \<Rightarrow> EventDoc \<Rightarrow> Store" where
  "putEvent st i e =
     st\<lparr>events := (if eventExists st i
                    then map (\<lambda>(j, old). if j = i then (j, e) else (j, old)) (events st)
                    else events st @ [(i, e)])\<rparr>"

text \<open>
  \<open>save()\<close> of an Event document with identifier \<open>i\<close>: the mapper validates the document,
  then runs the pre-save hook, then writes to the collection; the first failure rejects the
  write and leaves the store as it was.
\<close>

definition saveEvent ::
  "(string \<Rightarrow> int option) \<Rightarrow> Store \<Rightarrow> nat \<Rightarrow> bool \<Rightarrow> EventDoc \<Rightarrow> (error + EventDoc) \<times> Store" where
  "saveEvent parse st i titleModified e =
     (let errs = validateEvent e in
      if errs \<noteq> [] then (Inl (ValidationError errs), st)
      else case eventPreSave parse titleModified e of
             Inl err \<Rightarrow> (Inl err, st)
           | Inr e' \<Rightarrow>
               if slugTaken st i (slug e') then (Inl (DuplicateKeyError ''slug''), st)
               else (Inr e', putEvent st i e'))"

text \<open>Creating an Event: a new document gets the attributes through the setters, and its title
  counts as modified.\<close>

definition createEvent ::
  "(string \<Rightarrow> int option) \<Rightarrow> Store \<Rightarrow> nat \<Rightarrow> EventDoc \<Rightarrow> (error + EventDoc) \<times> Store" where
  "createEvent parse st i attrs = saveEvent parse st i True (applySetters attrs)"

section \<open>Booking model\<close>

text \<open>The pattern \<open>/^[^\s@]+@[^\s@]+\.[^\s@]+$/\<close>.\<close>

definition emailChar :: "char \<Rightarrow> bool" where
  "emailChar c = (\<not> (isWhiteSpace c \<or> c = CHR ''@''))"

definition isAt :: "char \<Rightarrow> bool" where
  "isAt c = (c = CHR ''@'')"

definition isDot :: "char \<Rightarrow> bool" where
  "isDot c = (c = CHR ''.'')"

definition emailRegex :: regex where
  "emailRegex =
     Concat (OneOrMore (Class emailChar))
       (Concat (Class isAt)
         (Concat (OneOrMore (Class emailChar))
           (Concat (Class isDot) (OneOrMore (Class emailChar)))))"

definition isValidEmail :: "string \<Rightarrow> bool" where
  "isValidEmail v = regexTest emailRegex (trim v)"

text \<open>The schema validates \<open>email\<close> with \<open>isValidEmail\<close>.\<close>

definition validateBooking :: "BookingDoc \<Rightarrow> string list" where
  "validateBooking b = (if isValidEmail (email b) then [] else [''email''])"

text \<open>The pre-save hook: the email once more, then the referenced event.\<close>

definition bookingPreSave :: "Store \<Rightarrow> BookingDoc \<Rightarrow> error + unit" where
  "bookingPreSave st b =
     (if \<not> isValidEmail (email b) then Inl (Error ''Invalid email format for booking.'')
      else if \<not> eventExists st (eventId b)
      then Inl (Error ''Cannot create booking: referenced event does not exist.'')
      else Inr ())"

definition saveBooking :: "Store \<Rightarrow> BookingDoc \<Rightarrow> (error + BookingDoc) \<times> Store" where
  "saveBooking st b =
     (let errs = validateBooking b in
      if errs \<noteq> [] then (Inl (ValidationError errs), st)
      else case bookingPreSave st b of
             Inl err \<Rightarrow> (Inl err, st)
           | Inr u \<Rightarrow> (Inr b, st\<lparr>bookings := bookings st @ [b]\<rparr>))"

definition createBooking :: "Store \<Rightarrow> nat \<Rightarrow> string \<Rightarrow> (error + BookingDoc) \<times> Store" where
  "createBooking st i addr = saveBooking st \<lparr>eventId = i, email = trim addr\<rparr>"

section \<open>Connection cache\<close>

text \<open>
  The cache holds the connection, once made, and the promise of the attempt in flight.
  A promise is named by the number of the \<open>mongoose.connect\<close> call that made it; \<open>attempts\<close>
  counts those calls. A connection is named by a number as well, a failure by its message.
\<close>

datatype outcome = Connected nat | Failed string

record MongooseCache =
  conn :: "nat option"
  promise :: "nat option"

record Runtime =
  cached :: MongooseCache
  attempts :: nat

definition initRuntime :: Runtime where
  "initRuntime = \<lparr>cached = \<lparr>conn = None, promise = None\<rparr>, attempts = 0\<rparr>"

text \<open>\<open>connectToDatabase\<close> up to its \<open>await\<close>: the cached connection is returned at once
  (\<open>Inl\<close>); otherwise a promise is made if none is cached, and the call waits for the cached
  promise (\<open>Inr\<close>).\<close>

definition connectStart :: "Runtime \<Rightarrow> (nat + nat) \<times> Runtime" where
  "connectStart rt =
     (case conn (cached rt) of
        Some h \<Rightarrow> (Inl h, rt)
      | None \<Rightarrow>
          (case promise (cached rt) of
             None \<Rightarrow>
               (Inr (attempts rt),
                rt\<lparr>cached := (cached rt)\<lparr>promise := Some (attempts rt)\<rparr>, attempts := attempts rt + 1\<rparr>)
           | Some p \<Rightarrow> (Inr p, rt)))"

text \<open>\<open>connectToDatabase\<close> from its \<open>await\<close> on, given how the awaited promise settled.\<close>

definition connectResume :: "outcome \<Rightarrow> Runtime \<Rightarrow> (string + nat) \<times> Runtime" where
  "connectResume out rt =
     (case out of
        Connected h \<Rightarrow> (Inr h, rt\<lparr>cached := (cached rt)\<lparr>conn := Some h\<rparr>\<rparr>)
      | Failed msg \<Rightarrow> (Inl msg, rt\<lparr>cached := (cached rt)\<lparr>promise := None\<rparr>\<rparr>))"

text \<open>A call that runs to its end before the next one starts; \<open>env p\<close> is how promise \<open>p\<close>
  settles.\<close>

definition connectToDatabase :: "(nat \<Rightarrow> outcome) \<Rightarrow> Runtime \<Rightarrow> (string + nat) \<times> Runtime" where
  "connectToDatabase env rt =
     (case connectStart rt of
        (Inl h, rt') \<Rightarrow> (Inr h, rt')
      | (Inr p, rt') \<Rightarrow> connectResume (env p) rt')"

text \<open>A sequence of such calls, with the result of each.\<close>

fun connectCalls :: "(nat \<Rightarrow> outcome) \<Rightarrow> nat \<Rightarrow> Runtime \<Rightarrow> (string + nat) list \<times> Runtime" where
  "connectCalls env 0 rt = ([], rt)"
| "connectCalls env (Suc n) rt =
     (case connectToDatabase env rt of
        (r, rt') \<Rightarrow> (case connectCalls env n rt' of (rs, rt'') \<Rightarrow> (r # rs, rt'')))"

subsection \<open>Callers that overlap\<close>

text \<open>
  JavaScript runs a call without interruption up to its \<open>await\<close> and again from there to its
  end, so overlapping callers interleave in those two pieces. The events of a run: a caller
  invokes the function, the driver settles a promise, a waiting caller goes on. An event that
  cannot happen in the state (a caller that is not idle invokes, a promise settles twice or
  before it was made, a caller goes on before its promise settled) has no next state.
\<close>

datatype caller = Idle | Awaiting nat | Returned nat | Threw string

datatype event = Invoke nat | Settle nat outcome | Resume nat

record World =
  runtime :: Runtime
  settled :: "nat \<Rightarrow> outcome option"
  callers :: "caller list"

definition initWorld :: "nat \<Rightarrow> World" where
  "initWorld n = \<lparr>runtime = initRuntime, settled = (\<lambda>p. None), callers = replicate n Idle\<rparr>"

fun step :: "event \<Rightarrow> World \<Rightarrow> World option" where
  "step (Invoke i) w =
     (if i < length (callers w) \<and> callers w ! i = Idle
      then (case connectStart (runtime w) of
              (Inl h, rt') \<Rightarrow> Some (w\<lparr>runtime := rt', callers := (callers w)[i := Returned h]\<rparr>)
            | (Inr p, rt') \<Rightarrow> Some (w\<lparr>runtime := rt', callers := (callers w)[i := Awaiting p]\<rparr>))
      else None)"
| "step (Settle p out) w =
     (if p < attempts (runtime w) \<and> settled w p = None
      then Some (w\<lparr>settled := (settled w)(p := Some out)\<rparr>)
      else None)"
| "step (Resume i) w =
     (if i < length (callers w)
      then (case callers w ! i of
              Awaiting p \<Rightarrow>
                (case settled w p of
                   None \<Rightarrow> None
                 | Some out \<Rightarrow>
                     (case connectResume out (runtime w) of
                        (Inr h, rt') \<Rightarrow> Some (w\<lparr>runtime := rt', callers := (callers w)[i := Returned h]\<rparr>)
                      | (Inl msg, rt') \<Rightarrow> Some (w\<lparr>runtime := rt', callers := (callers w)[i := Threw msg]\<rparr>)))
            | _ \<Rightarrow> None)
      else None)"

fun run :: "event list \<Rightarrow> World \<Rightarrow> World option" where
  "run [] w = Some w"
| "run (ev # evs) w = (case step ev w of None \<Rightarrow> None | Some w' \<Rightarrow> run evs w')"

section \<open>Stated properties\<close>

text \<open>The predicates the statements below are phrased with.\<close>

definition isSlugChar :: "char \<Rightarrow> bool" where
  "isSlugChar c = (isLowerAZ c \<or> isDigit c \<or> isHyphen c)"

fun noHyphenPair :: "string \<Rightarrow> bool" where
  "noHyphenPair (a # b # cs) = (\<not> (isHyphen a \<and> isHyphen b) \<and> noHyphenPair (b # cs))"
| "noHyphenPair _ = True"

text \<open>A slug as the specification describes it: lowercase letters, digits and hyphens only,
  no hyphen first, no hyphen last, no two hyphens side by side.\<close>

definition noLeadingHyphen :: "string \<Rightarrow> bool" where
  "noLeadingHyphen s = (case s of [] \<Rightarrow> True | c # cs \<Rightarrow> c \<noteq> CHR ''-'')"

definition noTrailingHyphen :: "string \<Rightarrow> bool" where
  "noTrailingHyphen s = (case rev s of [] \<Rightarrow> True | c # cs \<Rightarrow> c \<noteq> CHR ''-'')"

definition slugWellFormed :: "string \<Rightarrow> bool" where
  "slugWellFormed s = (list_all isSlugChar s \<and> noLeadingHyphen s \<and> noTrailingHyphen s \<and> noHyphenPair s)"

text \<open>A time as the pattern reads it: \<open>hs\<close> is the hour, one or two digits; \<open>ms\<close> the minute,
  two digits; \<open>so\<close> the seconds, two digits, when given.\<close>

definition timePattern :: "string \<Rightarrow> string \<Rightarrow> string \<Rightarrow> string option \<Rightarrow> bool" where
  "timePattern t hs ms so =
     ((length hs = 1 \<or> length hs = 2) \<and> list_all isDigit hs \<and>
      length ms = 2 \<and> list_all isDigit ms \<and>
      (case so of
         None \<Rightarrow> t = hs @ '':'' @ ms
       | Some ss \<Rightarrow> length ss = 2 \<and> list_all isDigit ss \<and> t = hs @ '':'' @ ms @ '':'' @ ss))"

text \<open>A time the specification accepts: the pattern, the hour at most 23, the minute and the
  seconds at most 59.\<close>

definition timeAsStated :: "string \<Rightarrow> bool" where
  "timeAsStated t =
     (\<exists>hs ms so. timePattern t hs ms so \<and> Number hs \<le> 23 \<and> Number ms \<le> 59 \<and>
        (case so of None \<Rightarrow> True | Some ss \<Rightarrow> Number ss \<le> 59))"

text \<open>A number below 100 as two digits.\<close>

definition twoDigits :: "int \<Rightarrow> string" where
  "twoDigits n = [digitChar (nat (n div 10)), digitChar (nat (n mod 10))]"

text \<open>An address the matcher accepts: a local part, \<open>@\<close>, and a domain with a dot that has
  something on both sides; no white space and no other \<open>@\<close>. And an address as the
  specification words it: the domain only has to contain a dot.\<close>

definition emailShape :: "string \<Rightarrow> bool" where
  "emailShape t =
     (\<exists>l a b. t = l @ ''@'' @ a @ ''.'' @ b \<and> l \<noteq> [] \<and> a \<noteq> [] \<and> b \<noteq> [] \<and>
        list_all emailChar l \<and> list_all emailChar a \<and> list_all emailChar b)"

definition emailShapeAsStated :: "string \<Rightarrow> bool" where
  "emailShapeAsStated t =
     (\<exists>l d. t = l @ ''@'' @ d \<and> l \<noteq> [] \<and> list_all emailChar l \<and> list_all emailChar d \<and>
        CHR ''.'' \<in> set d)"

text \<open>\<open>Event.findById(i)\<close>: the document stored under an identifier.\<close>

definition findEvent :: "Store \<Rightarrow> nat \<Rightarrow> EventDoc option" where
  "findEvent st i = map_of (events st) i"

text \<open>
  The slug as the specification derives it, step by step: lower-case the title, trim it, keep
  only lowercase letters (a to z), digits, white space and hyphens, turn each run of white space into
  one hyphen, then each run of hyphens into one hyphen. \<open>collapseRuns\<close> words the last two
  steps directly: within a run every character but the last is dropped, and the last becomes
  the hyphen.
\<close>

fun collapseRuns :: "(char \<Rightarrow> bool) \<Rightarrow> string \<Rightarrow> string" where
  "collapseRuns C [] = []"
| "collapseRuns C [c] = (if C c then ''-'' else [c])"
| "collapseRuns C (c # d # cs) =
     (if C c then (if C d then collapseRuns C (d # cs) else CHR ''-'' # collapseRuns C (d # cs))
      else c # collapseRuns C (d # cs))"

definition slugAsStated :: "string \<Rightarrow> string" where
  "slugAsStated t =
     collapseRuns (\<lambda>c. c = CHR ''-'')
       (collapseRuns isWhiteSpace
         (filter (\<lambda>c. isLowerAZ c \<or> isDigit c \<or> isWhiteSpace c \<or> c = CHR ''-'')
           (trim (toLowerCase t))))"

text \<open>
  The field conditions as the specification lists them: the eleven text fields are not empty
  once trimmed; \<open>agenda\<close> and \<open>tags\<close> are not empty and none of their elements is empty once
  trimmed. \<open>offending\<close> is the set of the names of the fields that break their condition.
\<close>

definition textFields :: "EventDoc \<Rightarrow> (string \<times> string) list" where
  "textFields e =
     [(''title'', title e), (''description'', description e), (''overview'', overview e),
      (''image'', image_path e), (''venue'', venue e), (''location'', location e),
      (''date'', date e), (''time'', time e), (''mode'', mode e), (''audience'', audience e),
      (''organizer'', organizer e)]"

definition listFields :: "EventDoc \<Rightarrow> (string \<times> string list) list" where
  "listFields e = [(''agenda'', agenda e), (''tags'', tags e)]"

definition offending :: "EventDoc \<Rightarrow> string set" where
  "offending e =
     {n. \<exists>v. (n, v) \<in> set (textFields e) \<and> trim v = []} \<union>
     {n. \<exists>xs. (n, xs) \<in> set (listFields e) \<and> (xs = [] \<or> (\<exists>x \<in> set xs. trim x = []))}"

text \<open>An Event with the given title and every other field filled in.\<close>

definition eventTitled :: "string \<Rightarrow> EventDoc" where
  "eventTitled t =
     \<lparr> title = t, slug = None, description = ''A meetup for developers'',
       overview = ''Talks and pizza'', image_path = ''/images/meetup.png'', venue = ''Main hall'',
       location = ''Berlin'', date = ''2024-03-05'', time = ''18:30'', mode = ''offline'',
       audience = ''developers'', agenda = [''Doors open'', ''Talks''], organizer = ''dev-events'',
       tags = [''meetup''] \<rparr>"

text \<open>A run without a failure: no promise is settled as failed.\<close>

fun failureFree :: "event list \<Rightarrow> bool" where
  "failureFree [] = True"
| "failureFree (Settle p (Failed msg) # evs) = False"
| "failureFree (ev # evs) = failureFree evs"

text \<open>
  What holds of every world reached without a failure: at most one attempt was made, and it
  is promise 0; the cache holds that promise exactly when it was made, and the connection only
  once the promise resolved to it; every caller is idle, waits for promise 0, or has returned
  the connection promise 0 resolved to.
\<close>

definition callerConverged :: "World \<Rightarrow> caller \<Rightarrow> bool" where
  "callerConverged w c =
     (case c of
        Idle \<Rightarrow> True
      | Awaiting p \<Rightarrow> p = 0 \<and> attempts (runtime w) = 1
      | Returned h \<Rightarrow> settled w 0 = Some (Connected h) \<and> attempts (runtime w) = 1
      | Threw msg \<Rightarrow> False)"

definition converged :: "World \<Rightarrow> bool" where
  "converged w =
     (attempts (runtime w) \<le> 1 \<and>
      (promise (cached (runtime w)) = (if attempts (runtime w) = 0 then None else Some 0)) \<and>
      (\<forall>h. conn (cached (runtime w)) = Some h \<longrightarrow>
         settled w 0 = Some (Connected h) \<and> attempts (runtime w) = 1) \<and>
      (\<forall>p out. settled w p = Some out \<longrightarrow>
         p = 0 \<and> attempts (runtime w) = 1 \<and> (\<exists>h. out = Connected h)) \<and>
      (\<forall>c \<in> set (callers w). callerConverged w c))"

text \<open>The year-month-day shape: four digits, a hyphen, two digits, a hyphen, two digits.\<close>

definition dateShape :: "string \<Rightarrow> bool" where
  "dateShape s =
     (length s = 10 \<and> list_all isDigit (take 4 s) \<and> s ! 4 = CHR ''-'' \<and>
      list_all isDigit (take 2 (drop 5 s)) \<and> s ! 7 = CHR ''-'' \<and> list_all isDigit (drop 8 s))"
section \<open>Properties\<close>

declare digitsOf.simps [simp del]

subsection \<open>Slugs\<close>

lemma replaceRuns_head_aux:
  "ys = [] \<or> \<not> C (hd ys) \<Longrightarrow> replaceRuns C r ys = [] \<or> \<not> C (hd (replaceRuns C r ys))"
  by (cases ys) auto

lemma replaceRuns_head:
  "replaceRuns C r (dropWhile C cs) = [] \<or> \<not> C (hd (replaceRuns C r (dropWhile C cs)))"
proof (rule replaceRuns_head_aux)
  show "dropWhile C cs = [] \<or> \<not> C (hd (dropWhile C cs))"
    by (metis hd_dropWhile)
qed

lemma noHyphenPair_Cons: "\<not> isHyphen c \<Longrightarrow> noHyphenPair xs \<Longrightarrow> noHyphenPair (c # xs)"
  by (cases xs) auto

lemma noHyphenPair_Cons': "xs = [] \<or> \<not> isHyphen (hd xs) \<Longrightarrow> noHyphenPair xs \<Longrightarrow> noHyphenPair (c # xs)"
  by (cases xs) auto

lemma noHyphenPair_replaceRuns: "noHyphenPair (replaceRuns isHyphen ''-'' s)"
proof (induction isHyphen "''-''" s rule: replaceRuns.induct)
  case 1
  show ?case by simp
next
  case (2 c cs)
  show ?case
  proof (cases "isHyphen c")
    case True
    have "replaceRuns isHyphen ''-'' (dropWhile isHyphen cs) = [] \<or>
       \<not> isHyphen (hd (replaceRuns isHyphen ''-'' (dropWhile isHyphen cs)))"
      by (rule replaceRuns_head)
    with True 2 show ?thesis by (simp add: noHyphenPair_Cons')
  next
    case False
    with 2 show ?thesis by (simp add: noHyphenPair_Cons)
  qed
qed

lemma set_replaceRuns: "set (replaceRuns C r s) \<subseteq> set r \<union> {c \<in> set s. \<not> C c}"
proof (induction C r s rule: replaceRuns.induct)
  case (1 C r)
  show ?case by simp
next
  case (2 C r c cs)
  have "set (dropWhile C cs) \<subseteq> set cs" by (simp add: set_dropWhileD subsetI)
  with 2 show ?case by (cases "C c") auto
qed

lemma noHyphenPair_nth:
  "noHyphenPair s \<Longrightarrow> Suc i < length s \<Longrightarrow> \<not> (s ! i = CHR ''-'' \<and> s ! Suc i = CHR ''-'')"
proof (induction s arbitrary: i rule: noHyphenPair.induct)
  case (1 a b cs)
  then show ?case by (cases i) (auto simp: isHyphen_def)
qed auto

lemma slug_chars: "list_all isSlugChar (slugify t)"
proof -
  let ?a = "removeChars notSlugSource (trim (toLowerCase t))"
  let ?b = "replaceRuns isWhiteSpace ''-'' ?a"
  have a: "\<forall>c \<in> set ?a. isLowerAZ c \<or> isDigit c \<or> isWhiteSpace c \<or> isHyphen c"
    by (auto simp: removeChars_def notSlugSource_def)
  have b: "\<forall>c \<in> set ?b. isSlugChar c"
    using set_replaceRuns [of isWhiteSpace "''-''" ?a] a
    by (auto simp: isSlugChar_def isHyphen_def)
  have "\<forall>c \<in> set (replaceRuns isHyphen ''-'' ?b). isSlugChar c"
    using set_replaceRuns [of isHyphen "''-''" ?b] b
    by (auto simp: isSlugChar_def isHyphen_def)
  then show ?thesis by (simp add: slugify_def list_all_iff)
qed

text \<open>
  Claim C3, as amended. For every title, the slug derived from it contains only lowercase
  letters, digits and hyphens, and no two hyphens stand side by side. (A hyphen can stand
  first or last: see the counterexample.)
\<close>

theorem slugify_alphabet_and_single_hyphens:
  "list_all isSlugChar (slugify t) \<and>
   (\<forall>i. Suc i < length (slugify t) \<longrightarrow>
      \<not> (slugify t ! i = CHR ''-'' \<and> slugify t ! Suc i = CHR ''-''))"
proof -
  have "noHyphenPair (slugify t)"
    unfolding slugify_def by (rule noHyphenPair_replaceRuns)
  then show ?thesis
    using slug_chars [of t] noHyphenPair_nth [of "slugify t"] by blast
qed

theorem slugify_alphabet_and_single_hyphens_witness:
  "list_all isSlugChar (slugify ''a  -- b'') \<and> Suc 1 < length (slugify ''a  -- b'') \<and>
   \<not> (slugify ''a  -- b'' ! 1 = CHR ''-'' \<and> slugify ''a  -- b'' ! Suc 1 = CHR ''-'')"
proof -
  have l: "Suc 1 < length (slugify ''a  -- b'')" by code_simp
  with slugify_alphabet_and_single_hyphens [of "''a  -- b''"] show ?thesis by blast
qed

text \<open>
  Claim C3, as stated, fails: the title \<open>! a -\<close> gives the slug \<open>-a-\<close>, with a hyphen first
  and a hyphen last. The exclamation mark is removed after the trim, so the space behind it
  becomes a leading hyphen; the hyphen of the title stays where it is.
\<close>

theorem slugify_edge_hyphens_counterexample:
  "slugify ''! a -'' = ''-a-'' \<and> \<not> slugWellFormed (slugify ''! a -'')"
  by code_simp

subsection \<open>The matcher decides the language\<close>

lemma matchesEmpty_language: "matchesEmpty r \<longleftrightarrow> [] \<in> language r"
  by (induction r) (auto intro: many.none)

lemma many_Cons_split:
  assumes "x \<in> many A" and "x = c # w"
  shows "\<exists>u v. w = u @ v \<and> c # u \<in> A \<and> v \<in> many A"
  using assms
proof (induction arbitrary: w rule: many.induct)
  case none
  then show ?case by simp
next
  case (more u v)
  show ?case
  proof (cases u)
    case Nil
    with more show ?thesis by simp
  next
    case (Cons a u')
    with more.prems have "a = c" and "w = u' @ v" by simp_all
    with Cons more.hyps(1,2) show ?thesis by blast
  qed
qed

lemma many_Cons_iff:
  "c # w \<in> many A \<longleftrightarrow> (\<exists>u v. w = u @ v \<and> c # u \<in> A \<and> v \<in> many A)"
proof
  assume "c # w \<in> many A"
  then show "\<exists>u v. w = u @ v \<and> c # u \<in> A \<and> v \<in> many A"
    by (rule many_Cons_split) simp
next
  assume "\<exists>u v. w = u @ v \<and> c # u \<in> A \<and> v \<in> many A"
  then obtain u v where "w = u @ v" "c # u \<in> A" "v \<in> many A" by blast
  then show "c # w \<in> many A"
    using many.more [of "c # u" A v] by simp
qed

lemma language_ConcatI:
  "u \<in> language r \<Longrightarrow> v \<in> language s \<Longrightarrow> u @ v \<in> language (Concat r s)"
  by auto

lemma language_after: "w \<in> language (after c r) \<longleftrightarrow> c # w \<in> language r"
proof (induction r arbitrary: w)
  case (Concat r s)
  show ?case
  proof
    assume "w \<in> language (after c (Concat r s))"
    then consider (l) u v where "w = u @ v" "u \<in> language (after c r)" "v \<in> language s"
      | (r) "matchesEmpty r" "w \<in> language (after c s)"
      by (auto split: if_splits)
    then show "c # w \<in> language (Concat r s)"
    proof cases
      case l
      then have "c # u \<in> language r" using Concat.IH(1) by simp
      with l have "(c # u) @ v \<in> language (Concat r s)" by (intro language_ConcatI)
      with l show ?thesis by simp
    next
      case r
      then have "[] \<in> language r" "c # w \<in> language s"
        using Concat.IH(2) by (simp_all add: matchesEmpty_language)
      then have "[] @ (c # w) \<in> language (Concat r s)" by (intro language_ConcatI)
      then show ?thesis by simp
    qed
  next
    assume "c # w \<in> language (Concat r s)"
    then obtain u v where uv: "c # w = u @ v" "u \<in> language r" "v \<in> language s" by auto
    show "w \<in> language (after c (Concat r s))"
    proof (cases u)
      case Nil
      with uv have "matchesEmpty r" "w \<in> language (after c s)"
        using Concat.IH(2) by (simp_all add: matchesEmpty_language)
      then show ?thesis by simp
    next
      case (Cons a u')
      with uv have "w = u' @ v" "u' \<in> language (after c r)"
        using Concat.IH(1) by simp_all
      with uv(3) show ?thesis by auto
    qed
  qed
next
  case (Repeat r)
  show ?case
    by (auto simp: many_Cons_iff Repeat.IH)
qed auto

lemma regexTest_language: "regexTest r s \<longleftrightarrow> s \<in> language r"
  by (induction s arbitrary: r) (simp_all add: matchesEmpty_language language_after)

lemma many_Class: "many {[c] | c. C c} = {w. list_all C w}"
proof (rule set_eqI, rule iffI)
  fix w assume "w \<in> many {[c] | c. C c}"
  then show "w \<in> {w. list_all C w}" by (induction rule: many.induct) auto
next
  fix w assume "w \<in> {w. list_all C w}"
  then have "list_all C w" by simp
  then show "w \<in> many {[c] | c. C c}"
  proof (induction w)
    case Nil
    show ?case by (rule many.none)
  next
    case (Cons a w)
    then have "[a] \<in> {[c] | c. C c}" "w \<in> many {[c] | c. C c}" by auto
    then have "[a] @ w \<in> many {[c] | c. C c}" by (rule many.more)
    then show ?case by simp
  qed
qed

lemma language_OneOrMore_Class:
  "language (OneOrMore (Class C)) = {w. w \<noteq> [] \<and> list_all C w}"
proof -
  have "language (OneOrMore (Class C)) = {[c] @ v | c v. C c \<and> list_all C v}"
    unfolding OneOrMore_def language.simps many_Class by blast
  also have "\<dots> = {w. w \<noteq> [] \<and> list_all C w}"
  proof (rule set_eqI, rule iffI)
    fix w assume "w \<in> {w. w \<noteq> [] \<and> list_all C w}"
    then show "w \<in> {[c] @ v | c v. C c \<and> list_all C v}" by (cases w) auto
  qed auto
  finally show ?thesis .
qed

subsection \<open>Times\<close>

lemma length_one_conv: "length xs = Suc 0 \<longleftrightarrow> (\<exists>a. xs = [a])"
  by (cases xs) auto

lemma length_two_conv: "length xs = 2 \<longleftrightarrow> (\<exists>a b. xs = [a, b])"
  by (cases xs; cases "tl xs") auto

lemma matchTime_Some_pattern:
  "matchTime t = Some (hs, ms, so) \<Longrightarrow> timePattern t hs ms so"
  by (induction t rule: matchTime.induct)
     (auto simp: timePattern_def isColon_def split: if_splits)

lemma pattern_matchTime:
  "timePattern t hs ms so \<Longrightarrow> matchTime t = Some (hs, ms, so)"
  by (cases so) (auto simp: timePattern_def length_one_conv length_two_conv isColon_def)

lemma matchTime_iff: "matchTime t = Some (hs, ms, so) \<longleftrightarrow> timePattern t hs ms so"
  using matchTime_Some_pattern pattern_matchTime by blast

lemma digitValue_range: "isDigit c \<Longrightarrow> 0 \<le> digitValue c \<and> digitValue c \<le> 9"
  by (auto simp: isDigit_def digitValue_def)

lemma Number_1: "Number [a] = digitValue a"
  by (simp add: Number_def)

lemma Number_2: "Number [a, b] = 10 * digitValue a + digitValue b"
  by (simp add: Number_def)

lemma Number_range:
  assumes "list_all isDigit ds" and "length ds = 1 \<or> length ds = 2"
  shows "0 \<le> Number ds \<and> Number ds \<le> 99"
proof -
  from assms(2) consider a where "ds = [a]" | a b where "ds = [a, b]"
    by (auto simp: length_one_conv length_two_conv)
  then show ?thesis
  proof cases
    case 1
    with assms(1) digitValue_range [of a] show ?thesis by (simp add: Number_1)
  next
    case 2
    with assms(1) digitValue_range [of a] digitValue_range [of b] show ?thesis
      by (simp add: Number_2)
  qed
qed

lemma digitChar_0: "digitChar 0 = CHR ''0''"
  by code_simp

lemma pad_twoDigits:
  assumes "0 \<le> n" and "n \<le> 99"
  shows "padStart 2 ''0'' (toString n) = twoDigits n"
proof (cases "n < 10")
  case True
  with assms have "n div 10 = 0" "n mod 10 = n" by simp_all
  with True assms show ?thesis
    by (simp add: toString_def twoDigits_def digitsOf.simps [of n] padStart_def digitChar_0)
next
  case False
  with assms have "n div 10 < 10" by simp
  with False assms show ?thesis
    by (simp add: toString_def twoDigits_def digitsOf.simps [of n] digitsOf.simps [of "n div 10"]
        padStart_def)
qed

lemma normalizeTime_Inr_iff:
  "normalizeTime v = Inr r \<longleftrightarrow>
     (\<exists>hs ms so. timePattern (trim v) hs ms so \<and> Number hs \<le> 23 \<and> Number ms \<le> 59 \<and>
        r = twoDigits (Number hs) @ '':'' @ twoDigits (Number ms))"
proof
  assume a: "normalizeTime v = Inr r"
  then obtain hs ms so where m: "matchTime (trim v) = Some (hs, ms, so)"
    by (cases "matchTime (trim v)") (auto simp: normalizeTime_def)
  then have p: "timePattern (trim v) hs ms so" by (rule matchTime_Some_pattern)
  then have rh: "0 \<le> Number hs \<and> Number hs \<le> 99" and rm: "0 \<le> Number ms \<and> Number ms \<le> 99"
    using Number_range [of hs] Number_range [of ms] by (simp_all add: timePattern_def)
  from a m have b: "Number hs \<le> 23" "Number ms \<le> 59"
    and r: "r = padStart 2 ''0'' (toString (Number hs)) @ '':'' @ padStart 2 ''0'' (toString (Number ms))"
    by (auto simp: normalizeTime_def Let_def split: if_splits)
  from r rh rm have "r = twoDigits (Number hs) @ '':'' @ twoDigits (Number ms)"
    by (simp add: pad_twoDigits)
  with p b show "\<exists>hs ms so. timePattern (trim v) hs ms so \<and> Number hs \<le> 23 \<and> Number ms \<le> 59 \<and>
        r = twoDigits (Number hs) @ '':'' @ twoDigits (Number ms)" by blast
next
  assume "\<exists>hs ms so. timePattern (trim v) hs ms so \<and> Number hs \<le> 23 \<and> Number ms \<le> 59 \<and>
        r = twoDigits (Number hs) @ '':'' @ twoDigits (Number ms)"
  then obtain hs ms so where p: "timePattern (trim v) hs ms so" and b: "Number hs \<le> 23" "Number ms \<le> 59"
    and r: "r = twoDigits (Number hs) @ '':'' @ twoDigits (Number ms)" by blast
  from p have m: "matchTime (trim v) = Some (hs, ms, so)" by (rule pattern_matchTime)
  from p have rh: "0 \<le> Number hs \<and> Number hs \<le> 99" and rm: "0 \<le> Number ms \<and> Number ms \<le> 99"
    using Number_range [of hs] Number_range [of ms] by (simp_all add: timePattern_def)
  with m b r show "normalizeTime v = Inr r"
    by (simp add: normalizeTime_def Let_def pad_twoDigits)
qed

lemma normalizeTime_no_pattern:
  assumes "\<forall>hs ms so. \<not> timePattern (trim v) hs ms so"
  shows "normalizeTime v = Inl (Error ''Invalid event time. Expected format HH:MM or HH:MM:SS (24-hour).'')"
proof -
  have "matchTime (trim v) = None"
  proof (cases "matchTime (trim v)")
    case (Some g)
    then obtain hs ms so where "matchTime (trim v) = Some (hs, ms, so)" by (cases g) auto
    then have "timePattern (trim v) hs ms so" by (rule matchTime_Some_pattern)
    with assms show ?thesis by blast
  qed simp
  then show ?thesis by (simp add: normalizeTime_def)
qed

lemma normalizeTime_out_of_range:
  assumes "timePattern (trim v) hs ms so" and "23 < Number hs \<or> 59 < Number ms"
  shows "normalizeTime v = Inl (Error ''Invalid event time. Hour must be 0-23 and minutes 0-59.'')"
proof -
  from assms(1) have "matchTime (trim v) = Some (hs, ms, so)" by (rule pattern_matchTime)
  with assms(2) show ?thesis by (auto simp: normalizeTime_def Let_def)
qed

text \<open>
  Claim C2, as amended. \<open>normalizeTime\<close> succeeds exactly when the trimmed input is an hour of
  one or two digits, a colon and a minute of two digits, optionally followed by a colon and
  two digits of seconds, with the hour at most 23 and the minute at most 59; it then returns
  the hour and the minute, two digits each, and drops the seconds. The seconds are not
  range-checked. Every other input fails with an error: the error of the format when the
  pattern does not match, the error of the range when the hour or the minute is too large.
\<close>

theorem normalizeTime_accepts_exactly:
  "(normalizeTime v = Inr r \<longleftrightarrow>
      (\<exists>hs ms so. timePattern (trim v) hs ms so \<and> Number hs \<le> 23 \<and> Number ms \<le> 59 \<and>
         r = twoDigits (Number hs) @ '':'' @ twoDigits (Number ms))) \<and>
   ((\<forall>hs ms so. \<not> timePattern (trim v) hs ms so) \<longrightarrow>
      normalizeTime v = Inl (Error ''Invalid event time. Expected format HH:MM or HH:MM:SS (24-hour).'')) \<and>
   (\<forall>hs ms so. timePattern (trim v) hs ms so \<and> (23 < Number hs \<or> 59 < Number ms) \<longrightarrow>
      normalizeTime v = Inl (Error ''Invalid event time. Hour must be 0-23 and minutes 0-59.''))"
  using normalizeTime_Inr_iff [of v r] normalizeTime_no_pattern [of v]
    normalizeTime_out_of_range [of v] by blast

theorem normalizeTime_accepts_exactly_witness:
  "normalizeTime '' 7:05:99 '' = Inr ''07:05'' \<and>
   (\<exists>hs ms so. timePattern (trim '' 7:05:99 '') hs ms so \<and> Number hs \<le> 23 \<and> Number ms \<le> 59 \<and>
      ''07:05'' = twoDigits (Number hs) @ '':'' @ twoDigits (Number ms)) \<and>
   (\<forall>hs ms so. \<not> timePattern (trim ''9:5'') hs ms so) \<and>
   normalizeTime ''9:5'' = Inl (Error ''Invalid event time. Expected format HH:MM or HH:MM:SS (24-hour).'') \<and>
   timePattern (trim ''24:00'') ''24'' ''00'' None \<and> 23 < Number ''24'' \<and>
   normalizeTime ''24:00'' = Inl (Error ''Invalid event time. Hour must be 0-23 and minutes 0-59.'')"
proof -
  have a: "normalizeTime '' 7:05:99 '' = Inr ''07:05''" by code_simp
  have "matchTime (trim ''9:5'') = None" by code_simp
  then have b: "\<forall>hs ms so. \<not> timePattern (trim ''9:5'') hs ms so"
    by (simp add: matchTime_iff [symmetric])
  have "matchTime (trim ''24:00'') = Some (''24'', ''00'', None)" by code_simp
  then have c: "timePattern (trim ''24:00'') ''24'' ''00'' None" by (simp add: matchTime_iff)
  have d: "23 < Number ''24''" by code_simp
  from a normalizeTime_accepts_exactly [of "'' 7:05:99 ''" "''07:05''"]
  have 1: "\<exists>hs ms so. timePattern (trim '' 7:05:99 '') hs ms so \<and> Number hs \<le> 23 \<and> Number ms \<le> 59 \<and>
      ''07:05'' = twoDigits (Number hs) @ '':'' @ twoDigits (Number ms)" by blast
  from b normalizeTime_accepts_exactly [of "''9:5''" "[]"]
  have 2: "normalizeTime ''9:5'' = Inl (Error ''Invalid event time. Expected format HH:MM or HH:MM:SS (24-hour).'')"
    by blast
  from c d normalizeTime_accepts_exactly [of "''24:00''" "[]"]
  have 3: "normalizeTime ''24:00'' = Inl (Error ''Invalid event time. Hour must be 0-23 and minutes 0-59.'')"
    by blast
  from a 1 b 2 c d 3 show ?thesis by blast
qed

text \<open>
  Claim C2, as stated, fails: \<open>12:30:99\<close> has a seconds component above 59, which the claim
  says is rejected, and \<open>normalizeTime\<close> returns \<open>12:30\<close> for it.
\<close>

theorem normalizeTime_seconds_counterexample:
  "\<not> timeAsStated (trim ''12:30:99'') \<and> normalizeTime ''12:30:99'' = Inr ''12:30''"
proof -
  have m: "matchTime (trim ''12:30:99'') = Some (''12'', ''30'', Some ''99'')" by code_simp
  have n: "\<not> Number ''99'' \<le> 59" by code_simp
  have "\<not> timeAsStated (trim ''12:30:99'')"
  proof
    assume "timeAsStated (trim ''12:30:99'')"
    then obtain hs ms so where p: "timePattern (trim ''12:30:99'') hs ms so"
      and s: "case so of None \<Rightarrow> True | Some ss \<Rightarrow> Number ss \<le> 59"
      unfolding timeAsStated_def by blast
    from p have "matchTime (trim ''12:30:99'') = Some (hs, ms, so)" by (rule pattern_matchTime)
    with m have "so = Some ''99''" by simp
    with s n show False by simp
  qed
  moreover have "normalizeTime ''12:30:99'' = Inr ''12:30''" by code_simp
  ultimately show ?thesis by blast
qed

subsection \<open>The two patterns\<close>

lemma language_Class_single: "w \<in> language (Class C) \<longleftrightarrow> (\<exists>c. w = [c] \<and> C c)"
  by auto

lemma language_Concat_iff:
  "w \<in> language (Concat r s) \<longleftrightarrow> (\<exists>u v. w = u @ v \<and> u \<in> language r \<and> v \<in> language s)"
  by auto

lemma language_emailRegex: "t \<in> language emailRegex \<longleftrightarrow> emailShape t"
  unfolding emailRegex_def emailShape_def language_Concat_iff language_OneOrMore_Class
    language_Class_single isAt_def isDot_def
  by (simp, blast)

lemma isValidEmail_iff: "isValidEmail v \<longleftrightarrow> emailShape (trim v)"
  by (simp add: isValidEmail_def regexTest_language language_emailRegex)

lemma language_Optional: "w \<in> language (Optional r) \<longleftrightarrow> w = [] \<or> w \<in> language r"
  by (auto simp: Optional_def)

lemma language_timeRegex: "t \<in> language timeRegex \<longleftrightarrow> (\<exists>hs ms so. timePattern t hs ms so)"
proof
  assume "t \<in> language timeRegex"
  then obtain h1 ho c1 m1 m2 so where
    t: "t = ([h1] @ ho) @ [c1] @ ([m1] @ [m2]) @ so" and
    d: "isDigit h1" "ho = [] \<or> (\<exists>h2. ho = [h2] \<and> isDigit h2)" "isColon c1" "isDigit m1" "isDigit m2" and
    s: "so = [] \<or> (\<exists>c2 s1 s2. so = [c2] @ [s1] @ [s2] \<and> isColon c2 \<and> isDigit s1 \<and> isDigit s2)"
    unfolding timeRegex_def language_Concat_iff language_Optional language_Class_single
    by blast
  from s show "\<exists>hs ms so. timePattern t hs ms so"
  proof
    assume "so = []"
    with t d have "timePattern t ([h1] @ ho) [m1, m2] None"
      by (auto simp: timePattern_def isColon_def)
    then show ?thesis by blast
  next
    assume "\<exists>c2 s1 s2. so = [c2] @ [s1] @ [s2] \<and> isColon c2 \<and> isDigit s1 \<and> isDigit s2"
    then obtain c2 s1 s2 where "so = [c2] @ [s1] @ [s2]" "isColon c2" "isDigit s1" "isDigit s2" by blast
    with t d have "timePattern t ([h1] @ ho) [m1, m2] (Some [s1, s2])"
      by (auto simp: timePattern_def isColon_def)
    then show ?thesis by blast
  qed
next
  assume "\<exists>hs ms so. timePattern t hs ms so"
  then obtain hs ms so where "timePattern t hs ms so" by blast
  then have "matchTime t = Some (hs, ms, so)" by (rule pattern_matchTime)
  then have "regexTest timeRegex t"
    by (induction t rule: matchTime.induct)
       (auto simp: timeRegex_def Optional_def isColon_def split: if_splits)
  then show "t \<in> language timeRegex" by (simp add: regexTest_language)
qed

lemma matchTime_regex: "matchTime t \<noteq> None \<longleftrightarrow> regexTest timeRegex t"
proof -
  have "matchTime t \<noteq> None \<longleftrightarrow> (\<exists>hs ms so. matchTime t = Some (hs, ms, so))"
    by (cases "matchTime t") auto
  also have "\<dots> \<longleftrightarrow> (\<exists>hs ms so. timePattern t hs ms so)"
    by (simp add: matchTime_iff)
  also have "\<dots> \<longleftrightarrow> regexTest timeRegex t"
    by (simp add: regexTest_language language_timeRegex)
  finally show ?thesis .
qed

subsection \<open>Trimming, addresses and bookings\<close>

lemma trimStart_idem: "trimStart (trimStart s) = trimStart s"
  by (simp add: trimStart_def)

lemma trimEnd_idem: "trimEnd (trimEnd s) = trimEnd s"
  by (simp add: trimEnd_def)

lemma dropWhile_rev_dropWhile:
  "dropWhile P (rev (dropWhile P (rev (dropWhile P s)))) = rev (dropWhile P (rev (dropWhile P s)))"
proof (cases "rev (dropWhile P (rev (dropWhile P s)))")
  case Nil
  then show ?thesis by (simp only: dropWhile.simps)
next
  case (Cons x xs)
  let ?a = "dropWhile P s"
  obtain ys where ys: "rev ?a = ys @ dropWhile P (rev ?a)"
    by (metis takeWhile_dropWhile_id)
  then have "?a = rev (dropWhile P (rev ?a)) @ rev ys"
    by (metis rev_append rev_rev_ident)
  with Cons have "?a = x # (xs @ rev ys)" by simp
  then have "\<not> P x" by (metis hd_dropWhile list.sel(1) list.distinct(1))
  with Cons show ?thesis by simp
qed

lemma trim_idem: "trim (trim s) = trim s"
proof -
  have "trimStart (trim s) = trim s"
    unfolding trim_def trimStart_def trimEnd_def by (rule dropWhile_rev_dropWhile)
  then show ?thesis
    by (simp add: trim_def [of "trim s"]) (simp add: trim_def trimEnd_idem)
qed

lemma nonEmptyString_trim: "nonEmptyString (trim v) = nonEmptyString v"
  by (simp add: nonEmptyString_def trim_idem)

lemma isValidEmail_trim: "isValidEmail (trim v) = isValidEmail v"
  by (simp add: isValidEmail_def trim_idem)

lemma emailChar_not_at: "list_all emailChar l \<Longrightarrow> CHR ''@'' \<notin> set l"
  by (auto simp: list_all_iff emailChar_def)

lemma emailShape_at: "emailShape t \<Longrightarrow> CHR ''@'' \<in> set t"
  by (auto simp: emailShape_def)

lemma emailShape_domain_dot:
  assumes "emailShape t" and "t = l @ ''@'' @ d"
  shows "CHR ''.'' \<in> set d"
proof -
  from assms(1) obtain l' a b where t: "t = l' @ ''@'' @ a @ ''.'' @ b"
    and c: "list_all emailChar l'" "list_all emailChar a" "list_all emailChar b"
    unfolding emailShape_def by blast
  from c have n: "CHR ''@'' \<notin> set l'" "CHR ''@'' \<notin> set (a @ ''.'' @ b)"
    by (auto dest: emailChar_not_at)
  from t assms(2) have "l' @ CHR ''@'' # (a @ ''.'' @ b) = l @ CHR ''@'' # d" by simp
  with n have "d = a @ ''.'' @ b" by (simp add: append_Cons_eq_iff)
  then show ?thesis by simp
qed

lemma saveBooking_bad_email:
  "\<not> isValidEmail (email b) \<Longrightarrow> saveBooking st b = (Inl (ValidationError [''email'']), st)"
  by (simp add: saveBooking_def validateBooking_def)

lemma saveBooking_missing_event:
  "isValidEmail (email b) \<Longrightarrow> \<not> eventExists st (eventId b) \<Longrightarrow>
   saveBooking st b = (Inl (Error ''Cannot create booking: referenced event does not exist.''), st)"
  by (simp add: saveBooking_def validateBooking_def bookingPreSave_def)

lemma saveBooking_ok:
  "isValidEmail (email b) \<Longrightarrow> eventExists st (eventId b) \<Longrightarrow>
   saveBooking st b = (Inr b, st\<lparr>bookings := bookings st @ [b]\<rparr>)"
  by (simp add: saveBooking_def validateBooking_def bookingPreSave_def)

text \<open>
  Claim C6, as amended. The email check passes exactly when the trimmed address is a
  non-empty local part, \<open>@\<close>, and a domain in which some dot has at least one character
  before it and one after it, with no white space and no other \<open>@\<close> anywhere. In particular
  an address without \<open>@\<close>, or without a dot in the domain, does not pass; and creating a
  Booking with an address that does not pass is rejected with a validation error naming
  \<open>email\<close>, the store unchanged.
\<close>

theorem isValidEmail_accepts_exactly:
  "(isValidEmail addr \<longleftrightarrow> emailShape (trim addr)) \<and>
   (CHR ''@'' \<notin> set (trim addr) \<longrightarrow> \<not> isValidEmail addr) \<and>
   (\<forall>l d. trim addr = l @ ''@'' @ d \<and> CHR ''.'' \<notin> set d \<longrightarrow> \<not> isValidEmail addr) \<and>
   (isValidEmail addr \<longleftrightarrow> fst (createBooking st i addr) \<noteq> Inl (ValidationError [''email''])) \<and>
   (\<not> isValidEmail addr \<longrightarrow> createBooking st i addr = (Inl (ValidationError [''email'']), st))"
proof -
  have 1: "isValidEmail addr \<longleftrightarrow> emailShape (trim addr)" by (rule isValidEmail_iff)
  have 2: "CHR ''@'' \<notin> set (trim addr) \<longrightarrow> \<not> isValidEmail addr"
    using 1 emailShape_at by blast
  have 3: "\<forall>l d. trim addr = l @ ''@'' @ d \<and> CHR ''.'' \<notin> set d \<longrightarrow> \<not> isValidEmail addr"
    using 1 emailShape_domain_dot by blast
  have 5: "\<not> isValidEmail addr \<longrightarrow> createBooking st i addr = (Inl (ValidationError [''email'']), st)"
    by (simp add: createBooking_def saveBooking_bad_email isValidEmail_trim)
  have "isValidEmail addr \<longrightarrow> fst (createBooking st i addr) \<noteq> Inl (ValidationError [''email''])"
    by (cases "eventExists st i")
       (simp_all add: createBooking_def saveBooking_ok saveBooking_missing_event isValidEmail_trim)
  with 5 have 4: "isValidEmail addr \<longleftrightarrow> fst (createBooking st i addr) \<noteq> Inl (ValidationError [''email''])"
    by auto
  from 1 2 3 4 5 show ?thesis by blast
qed

theorem isValidEmail_accepts_exactly_witness:
  "emailShape (trim '' dev@example.org '') \<and> \<not> isValidEmail ''dev.example.org'' \<and>
   \<not> isValidEmail ''dev@localhost'' \<and>
   createBooking emptyStore 1 ''dev@localhost'' = (Inl (ValidationError [''email'']), emptyStore)"
proof -
  have a: "isValidEmail '' dev@example.org ''" by code_simp
  have b: "CHR ''@'' \<notin> set (trim ''dev.example.org'')" by code_simp
  have c: "trim ''dev@localhost'' = ''dev'' @ ''@'' @ ''localhost'' \<and> CHR ''.'' \<notin> set ''localhost''"
    by code_simp
  from a isValidEmail_accepts_exactly [where addr = "'' dev@example.org ''" and st = emptyStore and i = 1]
  have 1: "emailShape (trim '' dev@example.org '')" by blast
  from b isValidEmail_accepts_exactly [where addr = "''dev.example.org''" and st = emptyStore and i = 1]
  have 2: "\<not> isValidEmail ''dev.example.org''" by blast
  from c isValidEmail_accepts_exactly [where addr = "''dev@localhost''" and st = emptyStore and i = 1]
  have 3: "\<not> isValidEmail ''dev@localhost''" by blast
  with isValidEmail_accepts_exactly [where addr = "''dev@localhost''" and st = emptyStore and i = 1]
  have 4: "createBooking emptyStore 1 ''dev@localhost'' = (Inl (ValidationError [''email'']), emptyStore)"
    by blast
  from 1 2 3 4 show ?thesis by blast
qed

text \<open>
  Claim C6, as stated, fails: in \<open>a@.b\<close> the local part is not empty, the domain \<open>.b\<close>
  contains a dot, and there is no white space and no second \<open>@\<close>; the check rejects it,
  since nothing stands before the dot.
\<close>

theorem isValidEmail_leading_dot_counterexample:
  "emailShapeAsStated (trim ''a@.b'') \<and> \<not> isValidEmail ''a@.b''"
proof -
  have t: "trim ''a@.b'' = ''a'' @ ''@'' @ ''.b''" by code_simp
  have "list_all emailChar ''a'' \<and> list_all emailChar ''.b'' \<and> CHR ''.'' \<in> set ''.b''"
    by code_simp
  with t have "emailShapeAsStated (trim ''a@.b'')"
    unfolding emailShapeAsStated_def by blast
  moreover have "\<not> isValidEmail ''a@.b''" by code_simp
  ultimately show ?thesis by blast
qed

text \<open>
  Claim C4, as amended. Creating a Booking whose \<open>eventId\<close> matches no Event fails and
  leaves the store unchanged; the error is the referential one (the referenced event does
  not exist) whenever the address passes the email check, and the validation error naming
  \<open>email\<close> otherwise, since the address is checked first.
\<close>

theorem createBooking_missing_event:
  "\<not> eventExists st i \<Longrightarrow>
   (\<exists>err. createBooking st i addr = (Inl err, st)) \<and>
   (isValidEmail addr \<longrightarrow>
      createBooking st i addr =
        (Inl (Error ''Cannot create booking: referenced event does not exist.''), st)) \<and>
   (\<not> isValidEmail addr \<longrightarrow> createBooking st i addr = (Inl (ValidationError [''email'']), st))"
  by (cases "isValidEmail addr")
     (simp_all add: createBooking_def saveBooking_bad_email saveBooking_missing_event isValidEmail_trim)

theorem createBooking_missing_event_witness:
  "\<not> eventExists emptyStore 7 \<and>
   createBooking emptyStore 7 ''dev@example.org'' =
     (Inl (Error ''Cannot create booking: referenced event does not exist.''), emptyStore)"
proof -
  have a: "\<not> eventExists emptyStore 7" by code_simp
  have b: "isValidEmail ''dev@example.org''" by code_simp
  from b createBooking_missing_event [OF a, of "''dev@example.org''"] a show ?thesis by blast
qed

text \<open>
  Claim C4, as stated, fails: with no such Event and the address \<open>nobody\<close>, creating the
  Booking fails with the validation error of the email and not with the referential error.
\<close>

theorem createBooking_bad_email_counterexample:
  "\<not> eventExists emptyStore 7 \<and>
   fst (createBooking emptyStore 7 ''nobody'') \<noteq>
     Inl (Error ''Cannot create booking: referenced event does not exist.'') \<and>
   createBooking emptyStore 7 ''nobody'' = (Inl (ValidationError [''email'']), emptyStore)"
  by code_simp

subsection \<open>Events\<close>

lemma collapseRuns_run: "C c \<Longrightarrow> collapseRuns C (c # cs) = CHR ''-'' # collapseRuns C (dropWhile C cs)"
proof (induction cs arbitrary: c)
  case Nil
  then show ?case by simp
next
  case (Cons d cs)
  then show ?case by simp
qed

lemma collapseRuns_skip: "\<not> C c \<Longrightarrow> collapseRuns C (c # cs) = c # collapseRuns C cs"
  by (cases cs) simp_all

lemma replaceRuns_collapseRuns: "replaceRuns C ''-'' s = collapseRuns C s"
proof (induction C "''-''" s rule: replaceRuns.induct)
  case (1 C)
  show ?case by simp
next
  case (2 C c cs)
  then show ?case
    by (cases "C c") (simp_all add: collapseRuns_run collapseRuns_skip)
qed

lemma slugify_as_stated: "slugify t = slugAsStated t"
proof -
  have "isHyphen = (\<lambda>c. c = CHR ''-'')" by (auto simp: isHyphen_def)
  moreover have "(\<lambda>c. \<not> notSlugSource c) = (\<lambda>c. isLowerAZ c \<or> isDigit c \<or> isWhiteSpace c \<or> c = CHR ''-'')"
    by (auto simp: notSlugSource_def isHyphen_def)
  ultimately show ?thesis
    by (simp add: slugify_def slugAsStated_def removeChars_def replaceRuns_collapseRuns)
qed

lemma dropWhile_none: "\<forall>x \<in> set xs. \<not> P x \<Longrightarrow> dropWhile P xs = xs"
  by (cases xs) auto

lemma trim_no_space: "\<forall>c \<in> set s. \<not> isWhiteSpace c \<Longrightarrow> trim s = s"
  by (simp add: trim_def trimStart_def trimEnd_def dropWhile_none)

lemma isSlugChar_not_space: "isSlugChar c \<Longrightarrow> \<not> isWhiteSpace c"
  by (auto simp: isSlugChar_def isWhiteSpace_def isLowerAZ_def isDigit_def isHyphen_def codeUnit_def)

lemma trim_slugify: "trim (slugify t) = slugify t"
  using slug_chars [of t] by (intro trim_no_space) (auto simp: list_all_iff dest: isSlugChar_not_space)

lemma isWhiteSpace_toLowerChar: "isWhiteSpace (toLowerChar c) = isWhiteSpace c"
  by (auto simp: toLowerChar_def isWhiteSpace_def codeUnit_def)

lemma toLowerCase_trim: "toLowerCase (trim s) = trim (toLowerCase s)"
proof -
  have w: "isWhiteSpace \<circ> toLowerChar = isWhiteSpace"
    by (rule ext) (simp add: isWhiteSpace_toLowerChar)
  show ?thesis
    by (simp add: toLowerCase_def trim_def trimStart_def trimEnd_def dropWhile_map rev_map w)
qed

lemma slugify_trim: "slugify (trim t) = slugify t"
  by (simp add: slugify_def toLowerCase_trim trim_idem)

lemma set_stringPath: "set (stringPath p v) = {n. n = p \<and> trim v = []}"
  by (auto simp: stringPath_def nonEmptyString_def)

lemma set_arrayPath: "set (arrayPath p xs) = {n. n = p \<and> (xs = [] \<or> (\<exists>x \<in> set xs. trim x = []))}"
  by (auto simp: arrayPath_def arrayValidator_def nonEmptyString_def list_all_iff)

lemma named_Cons:
  "{n. \<exists>v. (n, v) \<in> set ((a, x) # l) \<and> Q v} = {n. n = a \<and> Q x} \<union> {n. \<exists>v. (n, v) \<in> set l \<and> Q v}"
  by auto

lemma named_Nil: "{n. \<exists>v. (n, v) \<in> set [] \<and> Q v} = {}"
  by simp

lemma set_validateEvent: "set (validateEvent e) = offending e"
  unfolding validateEvent_def offending_def textFields_def listFields_def set_append
    set_stringPath set_arrayPath named_Cons named_Nil
  by (simp only: Un_ac Un_empty_right Un_empty_left)

lemma validateEvent_Nil_iff: "validateEvent e = [] \<longleftrightarrow> offending e = {}"
  using set_validateEvent [of e] by (metis set_empty)

lemma offending_title: "offending e = {} \<Longrightarrow> nonEmptyString (title e)"
  unfolding offending_def textFields_def named_Cons
  by (auto simp: nonEmptyString_def)

lemma offending_applySetters: "offending (applySetters e) = offending e"
  unfolding offending_def textFields_def listFields_def named_Cons named_Nil
  by (simp add: applySetters_def trim_idem)

lemma eventPreSave_slug:
  assumes "eventPreSave parse m e = Inr e'" and "m \<or> slugMissing (slug e)" and "nonEmptyString (title e)"
  shows "slug e' = Some (slugify (title e))"
  using assms
  by (auto simp: eventPreSave_def Let_def trim_slugify split: sum.splits)

lemma findEvent_putEvent: "findEvent (putEvent st i e) i = Some e"
proof (cases "eventExists st i")
  case True
  have "i \<in> set (map fst xs) \<Longrightarrow>
     map_of (map (\<lambda>(j, old). if j = i then (j, e) else (j, old)) xs) i = Some e" for xs
    by (induction xs) auto
  with True show ?thesis by (simp add: findEvent_def putEvent_def eventExists_def)
next
  case False
  then have "map_of (events st) i = None"
    by (simp add: eventExists_def map_of_eq_None_iff)
  with False show ?thesis by (simp add: findEvent_def putEvent_def map_add_def)
qed

lemma saveEvent_invalid:
  "offending e \<noteq> {} \<Longrightarrow> saveEvent parse st i m e = (Inl (ValidationError (validateEvent e)), st)"
  by (simp add: saveEvent_def validateEvent_Nil_iff)

lemma saveEvent_Inr:
  assumes "saveEvent parse st i m e = (Inr e', st')"
  shows "offending e = {} \<and> eventPreSave parse m e = Inr e' \<and> st' = putEvent st i e'"
  using assms
  by (auto simp: saveEvent_def Let_def validateEvent_Nil_iff split: if_splits sum.splits)

lemma saveEvent_slug:
  assumes "saveEvent parse st i m e = (Inr e', st')" and "m \<or> slugMissing (slug e)"
  shows "findEvent st' i = Some e' \<and> slug e' = Some (slugAsStated (title e))"
proof -
  from assms(1) have o: "offending e = {}" and h: "eventPreSave parse m e = Inr e'"
    and s: "st' = putEvent st i e'"
    using saveEvent_Inr by blast+
  from o have "nonEmptyString (title e)" by (rule offending_title)
  with h assms(2) have "slug e' = Some (slugify (title e))" by (rule eventPreSave_slug)
  with s show ?thesis by (simp add: findEvent_putEvent slugify_as_stated)
qed

lemma createEvent_slug:
  assumes "createEvent parse st i attrs = (Inr e', st')"
  shows "findEvent st' i = Some e' \<and> slug e' = Some (slugAsStated (title attrs))"
proof -
  from assms have "saveEvent parse st i True (applySetters attrs) = (Inr e', st')"
    by (simp add: createEvent_def)
  then have "findEvent st' i = Some e' \<and> slug e' = Some (slugAsStated (title (applySetters attrs)))"
    by (rule saveEvent_slug) simp
  moreover have "slugAsStated (title (applySetters attrs)) = slugAsStated (title attrs)"
    using slugify_trim [of "title attrs"] by (simp add: applySetters_def slugify_as_stated)
  ultimately show ?thesis by simp
qed

text \<open>
  Claim C1. For every save of an Event in which the title changed or no slug is set, the
  stored slug is the title lower-cased, trimmed, stripped of every character that is not a
  lowercase letter (a to z), a digit, white space or a hyphen, with each run of white space
  and then each run of hyphens collapsed into one hyphen. The same holds for every Event that
  is created. The title \<open>My Awesome Dev Meetup!!\<close> gives the slug \<open>my-awesome-dev-meetup\<close>.
\<close>

theorem saved_slug_is_derived_from_title:
  "(saveEvent parse st i titleModified e = (Inr e', st') \<and> (titleModified \<or> slugMissing (slug e))
      \<longrightarrow> findEvent st' i = Some e' \<and> slug e' = Some (slugAsStated (title e))) \<and>
   (createEvent parse st i attrs = (Inr e'', st'')
      \<longrightarrow> findEvent st'' i = Some e'' \<and> slug e'' = Some (slugAsStated (title attrs))) \<and>
   slugAsStated ''My Awesome Dev Meetup!!'' = ''my-awesome-dev-meetup'' \<and>
   slugify ''My Awesome Dev Meetup!!'' = ''my-awesome-dev-meetup''"
proof -
  have "slugify ''My Awesome Dev Meetup!!'' = ''my-awesome-dev-meetup''" by code_simp
  moreover have "slugAsStated ''My Awesome Dev Meetup!!'' = ''my-awesome-dev-meetup''" by code_simp
  ultimately show ?thesis
    using saveEvent_slug [of parse st i titleModified e e' st']
      createEvent_slug [of parse st i attrs e'' st''] by blast
qed

theorem saved_slug_is_derived_from_title_witness:
  "slugMissing (slug (eventTitled ''My Awesome Dev Meetup!!'')) \<and>
   (\<exists>e' st'. saveEvent isoDateParse emptyStore 1 False (eventTitled ''My Awesome Dev Meetup!!'') = (Inr e', st')
      \<and> findEvent st' 1 = Some e' \<and> slug e' = Some ''my-awesome-dev-meetup'') \<and>
   (\<exists>e' st'. createEvent isoDateParse emptyStore 1 (eventTitled '' Dev Day 2 '') = (Inr e', st')
      \<and> findEvent st' 1 = Some e' \<and> slug e' = Some (slugAsStated '' Dev Day 2 ''))"
proof -
  let ?e = "eventTitled ''My Awesome Dev Meetup!!''"
  let ?a = "eventTitled '' Dev Day 2 ''"
  have m: "slugMissing (slug ?e)" by code_simp
  have "\<not> isl (fst (saveEvent isoDateParse emptyStore 1 False ?e))" by code_simp
  then obtain e' st' where s: "saveEvent isoDateParse emptyStore 1 False ?e = (Inr e', st')"
    by (cases "saveEvent isoDateParse emptyStore 1 False ?e"; cases "fst (saveEvent isoDateParse emptyStore 1 False ?e)") auto
  have t: "title ?e = ''My Awesome Dev Meetup!!''" by (simp add: eventTitled_def)
  from s m t saved_slug_is_derived_from_title [of isoDateParse emptyStore 1 False ?e e' st']
  have 1: "findEvent st' 1 = Some e' \<and> slug e' = Some ''my-awesome-dev-meetup''" by simp
  have "\<not> isl (fst (createEvent isoDateParse emptyStore 1 ?a))" by code_simp
  then obtain e'' st'' where c: "createEvent isoDateParse emptyStore 1 ?a = (Inr e'', st'')"
    by (cases "createEvent isoDateParse emptyStore 1 ?a"; cases "fst (createEvent isoDateParse emptyStore 1 ?a)") auto
  have t': "title ?a = '' Dev Day 2 ''" by (simp add: eventTitled_def)
  from c t' saved_slug_is_derived_from_title [where parse = isoDateParse and st = emptyStore and i = 1
      and attrs = ?a and e'' = e'' and st'' = st'']
  have 2: "findEvent st'' 1 = Some e'' \<and> slug e'' = Some (slugAsStated '' Dev Day 2 '')" by simp
  from m s 1 c 2 show ?thesis by blast
qed

text \<open>
  Claim C5. On every save and every create of an Event, if one of the eleven text fields is
  empty once trimmed, or \<open>agenda\<close> or \<open>tags\<close> is empty or has an element that is empty once
  trimmed, the write is rejected with a validation error that names exactly the offending
  fields, and the store is left as it was; so a write that succeeds has every field present.
\<close>

theorem event_fields_are_required:
  "(offending e \<noteq> {} \<longrightarrow>
      (\<exists>ps. saveEvent parse st i titleModified e = (Inl (ValidationError ps), st) \<and> set ps = offending e)) \<and>
   (saveEvent parse st i titleModified e = (Inr e', st') \<longrightarrow> offending e = {}) \<and>
   (offending attrs \<noteq> {} \<longrightarrow>
      (\<exists>ps. createEvent parse st i attrs = (Inl (ValidationError ps), st) \<and> set ps = offending attrs)) \<and>
   (createEvent parse st i attrs = (Inr e'', st'') \<longrightarrow> offending attrs = {})"
proof -
  have 1: "offending e \<noteq> {} \<longrightarrow>
      (\<exists>ps. saveEvent parse st i titleModified e = (Inl (ValidationError ps), st) \<and> set ps = offending e)"
    using saveEvent_invalid [of e parse st i titleModified] set_validateEvent [of e] by blast
  have 2: "saveEvent parse st i titleModified e = (Inr e', st') \<longrightarrow> offending e = {}"
    using saveEvent_Inr by blast
  have 3: "offending attrs \<noteq> {} \<longrightarrow>
      (\<exists>ps. createEvent parse st i attrs = (Inl (ValidationError ps), st) \<and> set ps = offending attrs)"
    using saveEvent_invalid [of "applySetters attrs" parse st i True]
      set_validateEvent [of "applySetters attrs"]
    by (simp add: createEvent_def offending_applySetters)
  have 4: "createEvent parse st i attrs = (Inr e'', st'') \<longrightarrow> offending attrs = {}"
    using saveEvent_Inr [of parse st i True "applySetters attrs" e'' st'']
    by (simp add: createEvent_def offending_applySetters)
  from 1 2 3 4 show ?thesis by blast
qed

theorem event_fields_are_required_witness:
  "offending ((eventTitled ''Dev Day'')\<lparr>venue := ''  '', tags := [''meetup'', '' '']\<rparr>) = {''venue'', ''tags''} \<and>
   (\<exists>ps. createEvent isoDateParse emptyStore 1 ((eventTitled ''Dev Day'')\<lparr>venue := ''  '', tags := [''meetup'', '' '']\<rparr>)
            = (Inl (ValidationError ps), emptyStore) \<and> set ps = {''venue'', ''tags''}) \<and>
   (\<exists>e' st'. saveEvent isoDateParse emptyStore 1 True (eventTitled ''Dev Day'') = (Inr e', st')) \<and>
   offending (eventTitled ''Dev Day'') = {}"
proof -
  let ?bad = "(eventTitled ''Dev Day'')\<lparr>venue := ''  '', tags := [''meetup'', '' '']\<rparr>"
  have v: "validateEvent ?bad = [''venue'', ''tags'']" by code_simp
  have o: "offending ?bad = {''venue'', ''tags''}"
    using set_validateEvent [of ?bad] v by auto
  then have n: "offending ?bad \<noteq> {}" by simp
  from n o event_fields_are_required [where attrs = ?bad and parse = isoDateParse and st = emptyStore and i = 1]
  have 1: "\<exists>ps. createEvent isoDateParse emptyStore 1 ?bad = (Inl (ValidationError ps), emptyStore)
     \<and> set ps = {''venue'', ''tags''}" by simp
  let ?e = "eventTitled ''Dev Day''"
  have "\<not> isl (fst (saveEvent isoDateParse emptyStore 1 True ?e))" by code_simp
  then obtain e' st' where s: "saveEvent isoDateParse emptyStore 1 True ?e = (Inr e', st')"
    by (cases "saveEvent isoDateParse emptyStore 1 True ?e"; cases "fst (saveEvent isoDateParse emptyStore 1 True ?e)") auto
  with event_fields_are_required [where e = ?e and parse = isoDateParse and st = emptyStore and i = 1
      and titleModified = True and e' = e' and st' = st']
  have 2: "offending ?e = {}" by simp
  from o 1 s 2 show ?thesis by blast
qed

text \<open>
  Claim C10. The title \<open>!!!\<close> is not empty once trimmed and its slug is the empty string; an
  Event with that title passes every field validation and is stored with the empty slug; and
  the different title \<open>?!\<close> derives the same empty slug.
\<close>

theorem empty_slug_is_stored:
  "nonEmptyString ''!!!'' \<and> slugify ''!!!'' = [] \<and>
   validateEvent (eventTitled ''!!!'') = [] \<and>
   createEvent isoDateParse emptyStore 1 (eventTitled ''!!!'') =
     (Inr ((eventTitled ''!!!'')\<lparr>slug := Some []\<rparr>),
      \<lparr>events = [(1, (eventTitled ''!!!'')\<lparr>slug := Some []\<rparr>)], bookings = []\<rparr>) \<and>
   ''?!'' \<noteq> ''!!!'' \<and> nonEmptyString ''?!'' \<and> slugify ''?!'' = slugify ''!!!''"
  by code_simp


theorem empty_slug_is_stored_witness:
  "\<exists>t u. t \<noteq> u \<and> nonEmptyString t \<and> nonEmptyString u \<and> slugify t = [] \<and> slugify u = []"
  using empty_slug_is_stored by metis

subsection \<open>The connection cache, call after call\<close>

lemma connect_cached: "conn (cached rt) = Some h \<Longrightarrow> connectToDatabase env rt = (Inr h, rt)"
  by (simp add: connectToDatabase_def connectStart_def)

lemma connect_Inr_cached:
  "connectToDatabase env rt = (Inr h, rt') \<Longrightarrow> conn (cached rt') = Some h"
  by (auto simp: connectToDatabase_def connectStart_def connectResume_def
      split: option.splits outcome.splits)

lemma connectCalls_cached:
  "conn (cached rt) = Some h \<Longrightarrow> connectCalls env n rt = (replicate n (Inr h), rt)"
  by (induction n) (simp_all add: connect_cached)

lemma connect_Inl:
  assumes "connectToDatabase env rt = (Inl msg, rt')"
  shows "conn (cached rt') = None \<and> promise (cached rt') = None \<and> (\<exists>p. env p = Failed msg)"
  using assms
  by (auto simp: connectToDatabase_def connectStart_def connectResume_def
      split: option.splits outcome.splits)

lemma connect_fresh:
  assumes "conn (cached rt) = None" and "promise (cached rt) = None"
  shows "fst (connectStart rt) = Inr (attempts rt) \<and>
         promise (cached (snd (connectStart rt))) = Some (attempts rt) \<and>
         attempts (snd (connectToDatabase env rt)) = attempts rt + 1"
  using assms
  by (auto simp: connectToDatabase_def connectStart_def connectResume_def split: outcome.splits)

lemma connectCalls_init:
  assumes "connectCalls env n initRuntime = (rs, rt)" and "list_all (\<lambda>r. \<not> isl r) rs"
  shows "attempts rt \<le> 1 \<and> (\<exists>h. rs = replicate n (Inr h))"
proof (cases n)
  case 0
  with assms show ?thesis by (auto simp: initRuntime_def)
next
  case (Suc k)
  obtain r rt1 where c: "connectToDatabase env initRuntime = (r, rt1)" by (cases "connectToDatabase env initRuntime")
  obtain rs' rt2 where d: "connectCalls env k rt1 = (rs', rt2)" by (cases "connectCalls env k rt1")
  from assms(1) Suc c d have rs: "rs = r # rs'" and rt: "rt = rt2" by simp_all
  with assms(2) obtain h where h: "r = Inr h" by (cases r) auto
  from c h have a: "attempts rt1 = 1"
    by (auto simp: connectToDatabase_def connectStart_def connectResume_def initRuntime_def
        split: outcome.splits)
  from c h have "conn (cached rt1) = Some h" by (simp add: connect_Inr_cached)
  then have "connectCalls env k rt1 = (replicate k (Inr h), rt1)" by (rule connectCalls_cached)
  with d have "rs' = replicate k (Inr h)" "rt2 = rt1" by simp_all
  with rs rt h a Suc show ?thesis by auto
qed

subsection \<open>Overlapping callers\<close>

lemma converged_init: "converged (initWorld n)"
  by (simp add: converged_def initWorld_def initRuntime_def callerConverged_def)

lemma callerConverged_same:
  "settled w' 0 = settled w 0 \<Longrightarrow> attempts (runtime w') = attempts (runtime w) \<Longrightarrow>
   callerConverged w' c = callerConverged w c"
  by (simp add: callerConverged_def split: caller.splits)

lemma set_update_cases: "c \<in> set (xs[i := x]) \<Longrightarrow> c = x \<or> c \<in> set xs"
  using set_update_subset_insert [of xs i x] by auto

lemma converged_Invoke:
  assumes "converged w" and "step (Invoke i) w = Some w'"
  shows "converged w'"
proof -
  from assms(2) have i: "i < length (callers w)" "callers w ! i = Idle"
    by (auto split: if_splits)
  show ?thesis
  proof (cases "conn (cached (runtime w))")
    case (Some h)
    with assms i have w': "w' = w\<lparr>callers := (callers w)[i := Returned h]\<rparr>"
      by (auto simp: connectStart_def)
    from assms(1) Some have n: "callerConverged w (Returned h)"
      by (simp add: converged_def callerConverged_def)
    have same: "callerConverged w' c = callerConverged w c" for c
      unfolding w' by (rule callerConverged_same) simp_all
    from assms(1) n have "\<forall>c \<in> set (callers w'). callerConverged w' c"
      unfolding w' same [unfolded w'] by (auto simp: converged_def dest: set_update_cases)
    with assms(1) show ?thesis
      unfolding converged_def by (simp add: w')
  next
    case None
    show ?thesis
    proof (cases "promise (cached (runtime w))")
      case (Some p)
      with None assms i have w': "w' = w\<lparr>callers := (callers w)[i := Awaiting p]\<rparr>"
        by (auto simp: connectStart_def)
      from assms(1) Some have n: "callerConverged w (Awaiting p)"
        by (auto simp: converged_def callerConverged_def split: if_splits)
      have same: "callerConverged w' c = callerConverged w c" for c
        unfolding w' by (rule callerConverged_same) simp_all
      from assms(1) n have "\<forall>c \<in> set (callers w'). callerConverged w' c"
        unfolding w' same [unfolded w'] by (auto simp: converged_def dest: set_update_cases)
      with assms(1) show ?thesis
        unfolding converged_def by (simp add: w')
    next
      case N: None
      with assms(1) have a: "attempts (runtime w) = 0"
        by (auto simp: converged_def split: if_splits)
      let ?rt = "(runtime w)\<lparr>cached := (cached (runtime w))\<lparr>promise := Some 0\<rparr>, attempts := 1\<rparr>"
      from None N a assms i have w': "w' = w\<lparr>runtime := ?rt, callers := (callers w)[i := Awaiting 0]\<rparr>"
        by (auto simp: connectStart_def)
      from assms(1) a have s: "\<forall>p. settled w p = None"
        by (auto simp: converged_def)
      have idle: "c = Idle" if "c \<in> set (callers w)" for c
      proof -
        from assms(1) that have "callerConverged w c" by (simp add: converged_def)
        with a s show ?thesis by (cases c) (simp_all add: callerConverged_def)
      qed
      have "callerConverged w' c" if "c \<in> set (callers w')" for c
      proof -
        from that have "c = Awaiting 0 \<or> c \<in> set (callers w)"
          unfolding w' by (auto dest: set_update_cases)
        then show ?thesis
        proof
          assume "c = Awaiting 0"
          then show ?thesis by (simp add: callerConverged_def w')
        next
          assume "c \<in> set (callers w)"
          then have "c = Idle" by (rule idle)
          then show ?thesis by (simp add: callerConverged_def)
        qed
      qed
      with None s show ?thesis
        unfolding converged_def by (simp add: w')
    qed
  qed
qed

lemma converged_Settle:
  assumes "converged w" and "step (Settle p (Connected h)) w = Some w'"
  shows "converged w'"
proof -
  from assms(2) have p: "p < attempts (runtime w)" "settled w p = None"
    and w': "w' = w\<lparr>settled := (settled w)(p := Some (Connected h))\<rparr>"
    by (auto split: if_splits)
  from assms(1) p have p0: "p = 0" "attempts (runtime w) = 1" by (auto simp: converged_def)
  from assms(1) p p0 have c: "conn (cached (runtime w)) = None"
    by (cases "conn (cached (runtime w))") (auto simp: converged_def)
  have "callerConverged w' c" if "c \<in> set (callers w')" for c
  proof -
    from assms(1) that have "callerConverged w c" by (simp add: converged_def w')
    with p p0 show ?thesis by (cases c) (simp_all add: callerConverged_def w')
  qed
  with assms(1) p0 p c show ?thesis
    unfolding converged_def by (auto simp: w')
qed

lemma converged_Resume:
  assumes "converged w" and "step (Resume i) w = Some w'"
  shows "converged w'"
proof -
  from assms(2) obtain p out where i: "i < length (callers w)" "callers w ! i = Awaiting p"
    and s: "settled w p = Some out"
    by (auto split: if_splits caller.splits option.splits)
  from assms(1) s obtain h where out: "out = Connected h" and p0: "p = 0" "attempts (runtime w) = 1"
    unfolding converged_def by blast
  let ?rt = "(runtime w)\<lparr>cached := (cached (runtime w))\<lparr>conn := Some h\<rparr>\<rparr>"
  from assms(2) i s out have w': "w' = w\<lparr>runtime := ?rt, callers := (callers w)[i := Returned h]\<rparr>"
    by (simp add: connectResume_def)
  have same: "callerConverged w' c = callerConverged w c" for c
    unfolding w' by (rule callerConverged_same) simp_all
  from s out p0 have n: "callerConverged w (Returned h)" by (simp add: callerConverged_def)
  have "callerConverged w' c" if "c \<in> set (callers w')" for c
  proof -
    from that have "c = Returned h \<or> c \<in> set (callers w)"
      unfolding w' by (auto dest: set_update_cases)
    with assms(1) n show ?thesis
      unfolding same by (auto simp: converged_def)
  qed
  with assms(1) s out p0 show ?thesis
    unfolding converged_def by (auto simp: w')
qed

lemma converged_run:
  "converged w \<Longrightarrow> failureFree evs \<Longrightarrow> run evs w = Some w' \<Longrightarrow> converged w'"
proof (induction evs arbitrary: w)
  case Nil
  then show ?case by simp
next
  case (Cons ev evs)
  from Cons.prems(3) obtain w1 where s: "step ev w = Some w1" and r: "run evs w1 = Some w'"
    by (auto split: option.splits)
  have "converged w1 \<and> failureFree evs"
  proof (cases ev)
    case (Invoke i)
    with Cons.prems s show ?thesis using converged_Invoke by auto
  next
    case (Settle p out)
    with Cons.prems(2) obtain h where "out = Connected h" by (cases out) auto
    with Settle Cons.prems s show ?thesis using converged_Settle by auto
  next
    case (Resume i)
    with Cons.prems s show ?thesis using converged_Resume by auto
  qed
  with r Cons.IH show ?case by blast
qed

lemma step_length: "step ev w = Some w' \<Longrightarrow> length (callers w') = length (callers w)"
  by (cases ev) (auto split: if_splits prod.splits sum.splits caller.splits option.splits)

lemma run_length: "run evs w = Some w' \<Longrightarrow> length (callers w') = length (callers w)"
  by (induction evs arbitrary: w) (auto split: option.splits dest: step_length)

lemma failureFree_Invokes: "failureFree (map Invoke js)"
  by (induction js) simp_all

lemma step_Invoke_frame:
  assumes "step (Invoke i) w = Some w'"
  shows "settled w' = settled w \<and> conn (cached (runtime w')) = conn (cached (runtime w)) \<and>
         i < length (callers w) \<and> callers w' ! i \<noteq> Idle \<and>
         (\<forall>j. j \<noteq> i \<longrightarrow> callers w' ! j = callers w ! j)"
  using assms
  by (auto simp: connectStart_def split: if_splits option.splits)

lemma run_Invokes_frame:
  "run (map Invoke js) w = Some w' \<Longrightarrow>
   settled w' = settled w \<and> conn (cached (runtime w')) = conn (cached (runtime w)) \<and>
   (\<forall>j. callers w ! j \<noteq> Idle \<longrightarrow> callers w' ! j \<noteq> Idle) \<and>
   (\<forall>j \<in> set js. j < length (callers w) \<and> callers w' ! j \<noteq> Idle)"
proof (induction js arbitrary: w)
  case Nil
  then show ?case by simp
next
  case (Cons i js)
  from Cons.prems obtain w1 where s: "step (Invoke i) w = Some w1"
    and r: "run (map Invoke js) w1 = Some w'"
    by (auto split: option.splits)
  note f = step_Invoke_frame [OF s] and l = step_length [OF s] and ih = Cons.IH [OF r]
  have a: "callers w1 ! j \<noteq> Idle" if "callers w ! j \<noteq> Idle" for j
    using f that by (cases "j = i") auto
  from f ih l a show ?case by auto
qed

lemma invokes_await:
  assumes "run (map Invoke js) (initWorld n) = Some w" and "i \<in> set js"
  shows "attempts (runtime w) = 1 \<and> promise (cached (runtime w)) = Some 0 \<and> callers w ! i = Awaiting 0"
proof -
  have c: "converged w"
    using converged_init failureFree_Invokes assms(1) by (rule converged_run)
  from run_Invokes_frame [OF assms(1)] assms(2)
  have s: "settled w = (\<lambda>p. None)" and i: "i < n" "callers w ! i \<noteq> Idle"
    by (auto simp: initWorld_def)
  from run_length [OF assms(1)] i have "callers w ! i \<in> set (callers w)"
    by (simp add: initWorld_def)
  with c have "callerConverged w (callers w ! i)" by (simp add: converged_def)
  with i s have "callers w ! i = Awaiting 0 \<and> attempts (runtime w) = 1"
    by (cases "callers w ! i") (simp_all add: callerConverged_def)
  with c show ?thesis by (simp add: converged_def)
qed

lemma converged_callers:
  assumes "converged w" and "i < length (callers w)"
  shows "callers w ! i = Idle \<or>
         (attempts (runtime w) = 1 \<and>
          (callers w ! i = Awaiting 0 \<or>
           (\<exists>h. callers w ! i = Returned h \<and> settled w 0 = Some (Connected h))))"
proof -
  from assms have "callerConverged w (callers w ! i)" by (simp add: converged_def)
  then show ?thesis by (cases "callers w ! i") (simp_all add: callerConverged_def)
qed

text \<open>
  Claim C9. From an empty cache, in every interleaving of callers in which no attempt fails,
  at most one connection attempt is made, and every caller that has started either waits for
  that one promise or has returned the connection it resolved to. In particular, when the
  callers \<open>js\<close> all invoke the function before anything settles, exactly one attempt is made,
  it is the promise in the cache, and every one of them waits for it.
\<close>

theorem overlapping_callers_share_one_attempt:
  "(run evs (initWorld n) = Some w \<and> failureFree evs \<longrightarrow>
      attempts (runtime w) \<le> 1 \<and>
      (\<forall>i<n. callers w ! i = Idle \<or>
         (attempts (runtime w) = 1 \<and>
          (callers w ! i = Awaiting 0 \<or>
           (\<exists>h. callers w ! i = Returned h \<and> settled w 0 = Some (Connected h)))))) \<and>
   (run (map Invoke js) (initWorld n) = Some w' \<and> js \<noteq> [] \<longrightarrow>
      attempts (runtime w') = 1 \<and> promise (cached (runtime w')) = Some 0 \<and>
      (\<forall>i \<in> set js. callers w' ! i = Awaiting 0))"
proof -
  have 1: "attempts (runtime w) \<le> 1 \<and>
      (\<forall>i<n. callers w ! i = Idle \<or>
         (attempts (runtime w) = 1 \<and>
          (callers w ! i = Awaiting 0 \<or>
           (\<exists>h. callers w ! i = Returned h \<and> settled w 0 = Some (Connected h)))))"
    if r: "run evs (initWorld n) = Some w" and f: "failureFree evs"
  proof -
    have c: "converged w" using converged_init f r by (rule converged_run)
    from run_length [OF r] have "length (callers w) = n" by (simp add: initWorld_def)
    with c converged_callers [OF c] show ?thesis by (simp add: converged_def)
  qed
  have 2: "attempts (runtime w') = 1 \<and> promise (cached (runtime w')) = Some 0 \<and>
      (\<forall>i \<in> set js. callers w' ! i = Awaiting 0)"
    if r: "run (map Invoke js) (initWorld n) = Some w'" and j: "js \<noteq> []"
  proof -
    from j obtain i where "i \<in> set js" by (cases js) auto
    with invokes_await [OF r] show ?thesis by blast
  qed
  from 1 2 show ?thesis by blast
qed

theorem overlapping_callers_share_one_attempt_witness:
  "(\<exists>w. run (map Invoke [2, 0, 1]) (initWorld 3) = Some w \<and> attempts (runtime w) = 1 \<and>
        callers w ! 0 = Awaiting 0 \<and> callers w ! 1 = Awaiting 0 \<and> callers w ! 2 = Awaiting 0) \<and>
   (\<exists>w. run [Invoke 0, Invoke 1, Settle 0 (Connected 7), Resume 1, Invoke 2] (initWorld 3) = Some w \<and>
        failureFree [Invoke 0, Invoke 1, Settle 0 (Connected 7), Resume 1, Invoke 2] \<and>
        attempts (runtime w) \<le> 1)"
proof -
  have "\<not> Option.is_none (run (map Invoke [2, 0, 1]) (initWorld 3))" by code_simp
  then obtain w where r: "run (map Invoke [2, 0, 1]) (initWorld 3) = Some w"
    by (auto simp: Option.is_none_def)
  have n: "[2, 0, 1] \<noteq> ([] :: nat list)" by simp
  from r n overlapping_callers_share_one_attempt [where js = "[2, 0, 1]" and n = 3 and w' = w]
  have 1: "attempts (runtime w) = 1 \<and> callers w ! 0 = Awaiting 0 \<and> callers w ! 1 = Awaiting 0 \<and>
     callers w ! 2 = Awaiting 0" by simp
  let ?evs = "[Invoke 0, Invoke 1, Settle 0 (Connected 7), Resume 1, Invoke 2]"
  have "\<not> Option.is_none (run ?evs (initWorld 3))" by code_simp
  then obtain v where s: "run ?evs (initWorld 3) = Some v"
    by (auto simp: Option.is_none_def)
  have f: "failureFree ?evs" by simp
  from s f overlapping_callers_share_one_attempt [where evs = ?evs and n = 3 and w = v]
  have 2: "attempts (runtime v) \<le> 1" by blast
  from r 1 s f 2 show ?thesis by blast
qed

text \<open>
  Claim C8. Once a call has succeeded, every later call returns the same connection and
  leaves the cache and the number of attempts as they are. A call that fails surfaces the
  failure of the attempt it waited for and leaves no promise in the cache, so the next call
  makes a fresh attempt. And in every sequence of calls from the empty cache in which no call
  failed, at most one attempt was made and every call returned the same connection.
\<close>

theorem connection_is_cached_and_retried:
  "(connectToDatabase env rt = (Inr h, rt') \<longrightarrow> connectCalls env n rt' = (replicate n (Inr h), rt')) \<and>
   (connectToDatabase env rt = (Inl msg, rt'') \<longrightarrow>
      (\<exists>p. env p = Failed msg) \<and> promise (cached rt'') = None \<and>
      fst (connectStart rt'') = Inr (attempts rt'') \<and>
      attempts (snd (connectToDatabase env rt'')) = attempts rt'' + 1) \<and>
   (connectCalls env k initRuntime = (rs, rt3) \<and> list_all (\<lambda>r. \<not> isl r) rs \<longrightarrow>
      attempts rt3 \<le> 1 \<and> (\<exists>c. rs = replicate k (Inr c)))"
proof -
  have 1: "connectCalls env n rt' = (replicate n (Inr h), rt')"
    if "connectToDatabase env rt = (Inr h, rt')"
    using that by (intro connectCalls_cached connect_Inr_cached)
  have 2: "(\<exists>p. env p = Failed msg) \<and> promise (cached rt'') = None \<and>
      fst (connectStart rt'') = Inr (attempts rt'') \<and>
      attempts (snd (connectToDatabase env rt'')) = attempts rt'' + 1"
    if "connectToDatabase env rt = (Inl msg, rt'')"
    using connect_Inl [OF that] connect_fresh [of rt'' env] by blast
  from 1 2 connectCalls_init [of env k rs rt3] show ?thesis by blast
qed

theorem connection_is_cached_and_retried_witness:
  "connectToDatabase (\<lambda>p. Connected 5) initRuntime
     = (Inr 5, \<lparr>cached = \<lparr>conn = Some 5, promise = Some 0\<rparr>, attempts = 1\<rparr>) \<and>
   connectCalls (\<lambda>p. Connected 5) 3 \<lparr>cached = \<lparr>conn = Some 5, promise = Some 0\<rparr>, attempts = 1\<rparr>
     = ([Inr 5, Inr 5, Inr 5], \<lparr>cached = \<lparr>conn = Some 5, promise = Some 0\<rparr>, attempts = 1\<rparr>) \<and>
   connectToDatabase (\<lambda>p. if p = 0 then Failed ''down'' else Connected 5) initRuntime
     = (Inl ''down'', \<lparr>cached = \<lparr>conn = None, promise = None\<rparr>, attempts = 1\<rparr>) \<and>
   attempts (snd (connectToDatabase (\<lambda>p. if p = 0 then Failed ''down'' else Connected 5)
       \<lparr>cached = \<lparr>conn = None, promise = None\<rparr>, attempts = 1\<rparr>)) = 2 \<and>
   list_all (\<lambda>r. \<not> isl r) (fst (connectCalls (\<lambda>p. Connected 5) 4 initRuntime)) \<and>
   attempts (snd (connectCalls (\<lambda>p. Connected 5) 4 initRuntime)) \<le> 1"
proof -
  let ?ok = "\<lambda>p::nat. Connected 5"
  let ?bad = "\<lambda>p::nat. if p = 0 then Failed ''down'' else Connected 5"
  let ?rt1 = "\<lparr>cached = \<lparr>conn = Some 5, promise = Some 0\<rparr>, attempts = 1\<rparr>"
  let ?rt2 = "\<lparr>cached = \<lparr>conn = None, promise = None\<rparr>, attempts = 1\<rparr>"
  have a: "connectToDatabase ?ok initRuntime = (Inr 5, ?rt1)" by code_simp
  have b: "connectToDatabase ?bad initRuntime = (Inl ''down'', ?rt2)" by code_simp
  have c: "list_all (\<lambda>r. \<not> isl r) (fst (connectCalls ?ok 4 initRuntime))" by code_simp
  from a connection_is_cached_and_retried [where env = ?ok and rt = initRuntime and h = 5 and rt' = ?rt1 and n = 3]
  have 1: "connectCalls ?ok 3 ?rt1 = ([Inr 5, Inr 5, Inr 5], ?rt1)"
    by (simp add: numeral_3_eq_3)
  from b connection_is_cached_and_retried [where env = ?bad and rt = initRuntime and msg = "''down''" and rt'' = ?rt2]
  have 2: "attempts (snd (connectToDatabase ?bad ?rt2)) = 2" by simp
  from c connection_is_cached_and_retried [where env = ?ok and k = 4
      and rs = "fst (connectCalls ?ok 4 initRuntime)" and ?rt3.0 = "snd (connectCalls ?ok 4 initRuntime)"]
  have 3: "attempts (snd (connectCalls ?ok 4 initRuntime)) \<le> 1" by simp
  from a 1 b 2 c 3 show ?thesis by blast
qed

subsection \<open>Dates\<close>

text \<open>The year arithmetic agrees with the standard's definitions: \<open>YearFromDay d\<close> is the
  year whose first day is the last one not after \<open>d\<close>, and a year has \<open>DaysInYear\<close> days.\<close>

lemma div_bounds: "0 < k \<Longrightarrow> k * (x div k) \<le> x \<and> x < k * (x div k) + (k::int)"
  by (metis add.commute mult.commute pos_mod_bound pos_mod_sign div_mult_mod_eq add_le_cancel_left add_less_cancel_left
      le_add_same_cancel1 add_strict_left_mono)

lemma DayFromYear_bounds_aux:
  fixes y a b c :: int
  assumes "4 * a \<le> y - 1969 \<and> y - 1969 < 4 * a + 4"
    and "100 * b \<le> y - 1901 \<and> y - 1901 < 100 * b + 100"
    and "400 * c \<le> y - 1601 \<and> y - 1601 < 400 * c + 400"
  shows "146097 * (y - 1970) - 506 \<le> 400 * (365 * (y - 1970) + a - b + c) \<and>
         400 * (365 * (y - 1970) + a - b + c) \<le> 146097 * (y - 1970) + 589"
  using assms by auto

lemma DayFromYear_bounds:
  "146097 * (y - 1970) - 506 \<le> 400 * DayFromYear y \<and> 400 * DayFromYear y \<le> 146097 * (y - 1970) + 589"
  unfolding DayFromYear_def
  by (rule DayFromYear_bounds_aux; rule div_bounds; simp)

lemma YearFromDay_correct:
  "DayFromYear (YearFromDay d) \<le> d \<and> d < DayFromYear (YearFromDay d + 1)"
proof -
  define c where "c = 1970 + (d * 400) div 146097"
  have e: "146097 * ((d * 400) div 146097) \<le> d * 400 \<and> d * 400 < 146097 * ((d * 400) div 146097) + 146097"
    by (rule div_bounds) simp
  then have e': "146097 * (c - 1970) \<le> 400 * d \<and> 400 * d < 146097 * (c - 1970) + 146097"
    by (simp add: c_def)
  note b0 = DayFromYear_bounds [of "c - 1"] and b2 = DayFromYear_bounds [of "c + 2"]
  have y: "YearFromDay d = (if DayFromYear (c + 1) \<le> d then c + 1 else if DayFromYear c \<le> d then c else c - 1)"
    by (simp add: YearFromDay_def c_def Let_def)
  consider "DayFromYear (c + 1) \<le> d" | "\<not> DayFromYear (c + 1) \<le> d" "DayFromYear c \<le> d"
    | "\<not> DayFromYear (c + 1) \<le> d" "\<not> DayFromYear c \<le> d" by blast
  then show ?thesis
  proof cases
    case 1
    have "d < DayFromYear (c + 2)" using e' b2 by auto
    with 1 y show ?thesis by (simp add: add.assoc)
  next
    case 2
    with y show ?thesis by simp
  next
    case 3
    have "DayFromYear (c - 1) \<le> d" using e' b0 by auto
    with 3 y show ?thesis by simp
  qed
qed

lemma div_succ:
  fixes x k :: int
  assumes "0 < k"
  shows "(x + 1) div k = x div k + (if (x + 1) mod k = 0 then 1 else 0)"
proof -
  define q r where "q = x div k" and "r = x mod k"
  have x: "x = k * q + r" and r: "0 \<le> r" "r < k"
    using assms by (simp_all add: q_def r_def)
  show ?thesis
  proof (cases "r + 1 = k")
    case True
    with x have "x + 1 = k * (q + 1)" by (simp add: algebra_simps)
    with assms show ?thesis by (simp add: q_def)
  next
    case False
    with r have r': "0 \<le> r + 1" "r + 1 < k" by simp_all
    from x have x': "x + 1 = k * q + (r + 1)" by simp
    from x' r' have "(x + 1) div k = q" by (rule int_div_pos_eq)
    moreover from x' r' have "(x + 1) mod k = r + 1" by (rule int_mod_pos_eq)
    ultimately show ?thesis using r by (simp add: q_def)
  qed
qed

lemma mod_shift: "(y + k * c) mod k = y mod (k::int)"
  by simp

lemma step_quotient:
  fixes y k m :: int
  assumes "0 < k"
  shows "(y + 1 - (k * m + 1)) div k = (y - (k * m + 1)) div k + (if y mod k = 0 then 1 else 0)"
proof -
  have "y - k * m = y + k * (- m)" by simp
  then have "(y - k * m) mod k = y mod k" by (simp only: mod_shift)
  moreover have "y + 1 - (k * m + 1) = (y - (k * m + 1)) + 1" "(y - (k * m + 1)) + 1 = y - k * m" by simp_all
  ultimately show ?thesis using div_succ [OF assms, of "y - (k * m + 1)"] by simp
qed

lemma DayFromYear_step: "DayFromYear (y + 1) = DayFromYear y + DaysInYear y"
proof -
  have a: "(y + 1 - 1969) div 4 = (y - 1969) div 4 + (if y mod 4 = 0 then 1 else 0)"
    using step_quotient [of 4 y 492] by simp
  have b: "(y + 1 - 1901) div 100 = (y - 1901) div 100 + (if y mod 100 = 0 then 1 else 0)"
    using step_quotient [of 100 y 19] by simp
  have c: "(y + 1 - 1601) div 400 = (y - 1601) div 400 + (if y mod 400 = 0 then 1 else 0)"
    using step_quotient [of 400 y 4] by simp
  have d1: "y mod 4 = 0" if "y mod 100 = 0"
  proof -
    from that have "100 dvd y" by (simp add: dvd_eq_mod_eq_0)
    then have "4 dvd y" by (rule dvd_trans [rotated]) simp
    then show ?thesis by (simp add: dvd_eq_mod_eq_0)
  qed
  have d2: "y mod 100 = 0" if "y mod 400 = 0"
  proof -
    from that have "400 dvd y" by (simp add: dvd_eq_mod_eq_0)
    then have "100 dvd y" by (rule dvd_trans [rotated]) simp
    then show ?thesis by (simp add: dvd_eq_mod_eq_0)
  qed
  have "DayFromYear (y + 1) = 365 * (y + 1 - 1970) + (y + 1 - 1969) div 4 - (y + 1 - 1901) div 100
      + (y + 1 - 1601) div 400"
    by (simp only: DayFromYear_def)
  also have "\<dots> = DayFromYear y + DaysInYear y"
    unfolding a b c DayFromYear_def DaysInYear_def using d1 d2 by (simp add: algebra_simps)
  finally show ?thesis .
qed

lemma day_within_year:
  "0 \<le> d - DayFromYear (YearFromDay d) \<and> d - DayFromYear (YearFromDay d) < DaysInYear (YearFromDay d)"
  using YearFromDay_correct [of d] DayFromYear_step [of "YearFromDay d"] by simp

text \<open>
  Claim C7 at the date \<open>+010000-01-01\<close>, the first day of the year 10000. An unparseable
  string fails with the error of the function, whatever the parser. The date above parses,
  its ISO text is \<open>+010000-01-01T00:00:00.000Z\<close>, and the first ten characters that
  \<open>normalizeDate\<close> returns are \<open>+010000-01\<close>: not the year-month-day shape. (Normalizing
  \<open>+010000-01\<close> again gives \<open>+010000-01\<close> back.)
\<close>

theorem normalizeDate_year_10000:
  "(normalizeDate parse v = Inl (Error ''Invalid event date. Please provide a valid date value.''))
     = (parse v = None) \<and>
   isoDateParse ''+010000-01-01'' = Some 253402300800000 \<and>
   toISOString 253402300800000 = ''+010000-01-01T00:00:00.000Z'' \<and>
   normalizeDate isoDateParse ''+010000-01-01'' = Inr ''+010000-01'' \<and>
   \<not> dateShape ''+010000-01'' \<and>
   normalizeDate isoDateParse ''+010000-01'' = Inr ''+010000-01'' \<and>
   normalizeDate isoDateParse ''2024-03-05'' = Inr ''2024-03-05'' \<and> dateShape ''2024-03-05''"
proof -
  have "(normalizeDate parse v = Inl (Error ''Invalid event date. Please provide a valid date value.''))
     = (parse v = None)"
    by (cases "parse v") (simp_all add: normalizeDate_def)
  moreover have "isoDateParse ''+010000-01-01'' = Some 253402300800000" by code_simp
  moreover have "toISOString 253402300800000 = ''+010000-01-01T00:00:00.000Z''" by code_simp
  moreover have "normalizeDate isoDateParse ''+010000-01-01'' = Inr ''+010000-01''" by code_simp
  moreover have "\<not> dateShape ''+010000-01''" by code_simp
  moreover have "normalizeDate isoDateParse ''+010000-01'' = Inr ''+010000-01''" by code_simp
  moreover have "normalizeDate isoDateParse ''2024-03-05'' = Inr ''2024-03-05''" by code_simp
  moreover have "dateShape ''2024-03-05''" by code_simp
  ultimately show ?thesis by blast
qed

end
